theory Spec2Isabelle
  imports Complex_Main "HOL-Library.Sublist" "HOL-Library.AList"
begin

section \<open>Python values\<close>

text \<open>
  A Python \<open>str\<close> is a sequence of Unicode code points, not of bytes, so a string is a
  list of integers here (\<open>ord\<close> of each character).  ASCII literals are written through
  \<open>ascii\<close>; every other literal of \<open>app.py\<close> is spelled out by its code points.
\<close>

type_synonym ustr = "int list"

definition ascii :: "string \<Rightarrow> ustr" where
  "ascii s = map of_char s"

text \<open>
  A float is taken at its exact value.  The program only ever tests a float for NaN and
  truncates it with \<open>int(...)\<close>, and both are exact operations on the value.
\<close>

datatype pyfloat = Fin rat | PInf | NInf | NaN

text \<open>
  The objects a spreadsheet cell (or a caller of the helpers) can hold: \<open>None\<close>, a float,
  an int, a bool, a str, or some other scalar such as a datetime.
\<close>

datatype pyval = PNone | PFloat pyfloat | PInt int | PBool bool | PStr ustr | POther

datatype error = KeyError | OverflowError | ValueError

text \<open>\<open>pd.isna\<close> on a scalar: \<open>None\<close> and NaN are missing, nothing else is.\<close>

fun isna :: "pyval \<Rightarrow> bool" where
  "isna PNone = True"
| "isna (PFloat NaN) = True"
| "isna _ = False"

section \<open>Unicode character classes\<close>

definition in_ranges :: "(int \<times> int) list \<Rightarrow> int \<Rightarrow> bool" where
  "in_ranges rs c = list_ex (\<lambda>(lo, hi). lo \<le> c \<and> c \<le> hi) rs"

text \<open>
  \<open>str.isspace\<close>, \<open>str.strip\<close> and the pattern \<open>\s\<close> all use the same test
  (\<open>Py_UNICODE_ISSPACE\<close>).
\<close>

definition isspace :: "int \<Rightarrow> bool" where
  "isspace c = in_ranges
     [(0x9, 0xD), (0x1C, 0x20), (0x85, 0x85), (0xA0, 0xA0), (0x1680, 0x1680),
      (0x2000, 0x200A), (0x2028, 0x2029), (0x202F, 0x202F), (0x205F, 0x205F),
      (0x3000, 0x3000)] c"

text \<open>
  The pattern \<open>\d\<close> on a \<open>str\<close> matches every character of category Nd (table of
  Unicode 14.0, the database of CPython 3.11).
\<close>

definition isdecimal :: "int \<Rightarrow> bool" where
  "isdecimal c = in_ranges
     [(0x30, 0x39), (0x660, 0x669), (0x6F0, 0x6F9), (0x7C0, 0x7C9), (0x966, 0x96F),
      (0x9E6, 0x9EF), (0xA66, 0xA6F), (0xAE6, 0xAEF), (0xB66, 0xB6F), (0xBE6, 0xBEF),
      (0xC66, 0xC6F), (0xCE6, 0xCEF), (0xD66, 0xD6F), (0xDE6, 0xDEF), (0xE50, 0xE59),
      (0xED0, 0xED9), (0xF20, 0xF29), (0x1040, 0x1049), (0x1090, 0x1099),
      (0x17E0, 0x17E9), (0x1810, 0x1819), (0x1946, 0x194F), (0x19D0, 0x19D9),
      (0x1A80, 0x1A89), (0x1A90, 0x1A99), (0x1B50, 0x1B59), (0x1BB0, 0x1BB9),
      (0x1C40, 0x1C49), (0x1C50, 0x1C59), (0xA620, 0xA629), (0xA8D0, 0xA8D9),
      (0xA900, 0xA909), (0xA9D0, 0xA9D9), (0xA9F0, 0xA9F9), (0xAA50, 0xAA59),
      (0xABF0, 0xABF9), (0xFF10, 0xFF19), (0x104A0, 0x104A9), (0x10D30, 0x10D39),
      (0x11066, 0x1106F), (0x110F0, 0x110F9), (0x11136, 0x1113F), (0x111D0, 0x111D9),
      (0x112F0, 0x112F9), (0x11450, 0x11459), (0x114D0, 0x114D9), (0x11650, 0x11659),
      (0x116C0, 0x116C9), (0x11730, 0x11739), (0x118E0, 0x118E9), (0x11950, 0x11959),
      (0x11C50, 0x11C59), (0x11D50, 0x11D59), (0x11DA0, 0x11DA9), (0x16A60, 0x16A69),
      (0x16AC0, 0x16AC9), (0x16B50, 0x16B59), (0x1D7CE, 0x1D7FF), (0x1E140, 0x1E149),
      (0x1E2F0, 0x1E2F9), (0x1E950, 0x1E959), (0x1FBF0, 0x1FBF9)] c"

text \<open>
  \<open>str.isdigit\<close> accepts more: every character whose numeric type is Decimal or Digit
  (superscripts, circled digits and so on).
\<close>

definition isdigit_char :: "int \<Rightarrow> bool" where
  "isdigit_char c = (isdecimal c \<or> in_ranges
     [(0xB2, 0xB3), (0xB9, 0xB9), (0x1369, 0x1371), (0x19DA, 0x19DA), (0x2070, 0x2070),
      (0x2074, 0x2079), (0x2080, 0x2089), (0x2460, 0x2468), (0x2474, 0x247C),
      (0x2488, 0x2490), (0x24EA, 0x24EA), (0x24F5, 0x24FD), (0x24FF, 0x24FF),
      (0x2776, 0x277E), (0x2780, 0x2788), (0x278A, 0x2792), (0x10A40, 0x10A43),
      (0x10E60, 0x10E68), (0x11052, 0x1105A), (0x1F100, 0x1F10A)] c)"

section \<open>The regular expressions of the program\<close>

text \<open>
  The patterns of \<open>app.py\<close> are sequences of single-character matchers, each taken once,
  a fixed number of times, lazily any number of times (\<open>x*?\<close>) or greedily at least
  \<open>n\<close> times (\<open>x+\<close>, \<open>x{n,}\<close>).
\<close>

datatype cset = Chr int | Dot | Cls "int list" | Space | Digit

fun cmatch :: "cset \<Rightarrow> int \<Rightarrow> bool" where
  "cmatch (Chr c) x = (x = c)"
| "cmatch Dot x = (x \<noteq> 0xA)"
| "cmatch (Cls cs) x = (x \<in> set cs)"
| "cmatch Space x = isspace x"
| "cmatch Digit x = isdecimal x"

datatype atom = One cset | Lazy_star cset | At_least nat cset | Exactly nat cset

type_synonym regex = "atom list"

text \<open>
  \<open>ends r s\<close> lists what is left of \<open>s\<close> after each way \<open>r\<close> can match a prefix of it, in
  the order in which the backtracking matcher of \<open>re\<close> tries them: a lazy repetition
  tries the shortest continuation first, a greedy one the longest.  The argument \<open>k\<close>
  is the matcher of the rest of the pattern.
\<close>

fun lazy_star :: "cset \<Rightarrow> (ustr \<Rightarrow> ustr list) \<Rightarrow> ustr \<Rightarrow> ustr list" where
  "lazy_star c k [] = k []"
| "lazy_star c k (x # xs) = k (x # xs) @ (if cmatch c x then lazy_star c k xs else [])"

fun greedy_star :: "cset \<Rightarrow> (ustr \<Rightarrow> ustr list) \<Rightarrow> ustr \<Rightarrow> ustr list" where
  "greedy_star c k [] = k []"
| "greedy_star c k (x # xs) = (if cmatch c x then greedy_star c k xs else []) @ k (x # xs)"

fun exactly :: "nat \<Rightarrow> cset \<Rightarrow> (ustr \<Rightarrow> ustr list) \<Rightarrow> ustr \<Rightarrow> ustr list" where
  "exactly 0 c k s = k s"
| "exactly (Suc n) c k [] = []"
| "exactly (Suc n) c k (x # xs) = (if cmatch c x then exactly n c k xs else [])"

fun ends :: "regex \<Rightarrow> ustr \<Rightarrow> ustr list" where
  "ends [] s = [s]"
| "ends (One c # r) s = exactly 1 c (ends r) s"
| "ends (Lazy_star c # r) s = lazy_star c (ends r) s"
| "ends (At_least n c # r) s = exactly n c (greedy_star c (ends r)) s"
| "ends (Exactly n c # r) s = exactly n c (ends r) s"

text \<open>\<open>re.fullmatch\<close>: some way of matching consumes the whole string.\<close>

definition re_fullmatch :: "regex \<Rightarrow> ustr \<Rightarrow> bool" where
  "re_fullmatch r s = ([] \<in> set (ends r s))"

text \<open>
  \<open>re.sub(r, "", s)\<close>: scan from the left; where the pattern matches, drop the match and
  go on behind it, otherwise keep the character.  With the empty replacement an empty
  match changes nothing and the matcher is asked again for a match that advances, so
  the match dropped at a position is the first one, in the matcher's order, that
  consumes at least one character.
\<close>

definition first_match :: "regex \<Rightarrow> ustr \<Rightarrow> ustr option" where
  "first_match r s = find (\<lambda>e. length e < length s) (ends r s)"

function re_sub :: "regex \<Rightarrow> ustr \<Rightarrow> ustr" where
  "re_sub r [] = []"
| "re_sub r (x # xs) =
     (case first_match r (x # xs) of
        Some rest \<Rightarrow> re_sub r rest
      | None \<Rightarrow> x # re_sub r xs)"
  by pat_completeness auto
termination
  by (relation "measure (\<lambda>(r, s). length s)")
     (auto simp: first_match_def find_Some_iff)

section \<open>Text normalizer\<close>

definition lit :: "ustr \<Rightarrow> regex" where
  "lit s = map (\<lambda>c. One (Chr c)) s"

text \<open>The nine patterns of \<open>clean_text\<close>, in the order of the source.\<close>

definition patterns :: "regex list" where
  "patterns =
    [ [One (Chr 0x23), Lazy_star Dot, One (Chr 0x30BB), One (Chr 0x30C3), One (Chr 0x30C8)],
      [One (Chr 0x3010), Lazy_star Dot, One (Chr 0x3011)],
      [One (Chr 0x2F), Lazy_star Dot],
      lit [0x97D3, 0x30B3, 0x30B9, 0x30E1],
      lit [0x53E3, 0x7D05],
      lit [0x30EA, 0x30C3, 0x30D7],
      lit [0x30A2, 0x30EF, 0x30B0, 0x30ED, 0x30A6],
      [One (Cls [0x5B, 0x5D, 0x3010, 0x3011, 0x23])],
      [At_least 2 Space] ]"

text \<open>\<open>str.strip()\<close> without argument removes leading and trailing whitespace.\<close>

definition strip :: "ustr \<Rightarrow> ustr" where
  "strip s = rev (dropWhile isspace (rev (dropWhile isspace s)))"

fun clean_text :: "pyval \<Rightarrow> ustr" where
  "clean_text (PStr text) =
     re_sub [At_least 1 Space] (strip (fold re_sub patterns text))"
| "clean_text _ = []"

section \<open>Similarity matcher\<close>

subsection \<open>\<open>difflib.SequenceMatcher\<close>\<close>

text \<open>
  \<open>SequenceMatcher(None, a, b)\<close> is built without a junk test, so its junk set is empty,
  and with \<open>autojunk\<close> left on: in a \<open>b\<close> of 200 or more elements, an element that occurs
  more than \<open>len(b) // 100 + 1\<close> times is "popular" and gets no entry in \<open>b2j\<close>.
  \<open>b2j b x\<close> is the ascending list of positions of \<open>x\<close> in \<open>b\<close>, empty for an element that
  is popular or does not occur (\<open>b2j.get(a[i], nothing)\<close>).
\<close>

definition popular :: "ustr \<Rightarrow> int \<Rightarrow> bool" where
  "popular b x = (200 \<le> length b \<and> length b div 100 + 1 < count_list b x)"

definition b2j :: "ustr \<Rightarrow> int \<Rightarrow> nat list" where
  "b2j b x = (if popular b x then [] else filter (\<lambda>j. b ! j = x) [0..<length b])"

text \<open>
  \<open>j2len.get(j-1, 0)\<close>.  The dictionary \<open>j2len\<close> is an association list; its keys are
  positions of \<open>b\<close>, so the key \<open>-1\<close> asked for at \<open>j = 0\<close> is never present.
\<close>

definition j2lenget :: "(nat \<times> nat) list \<Rightarrow> nat \<Rightarrow> nat" where
  "j2lenget j2len j =
     (if j = 0 then 0 else case map_of j2len (j - 1) of None \<Rightarrow> 0 | Some v \<Rightarrow> v)"

text \<open>
  The inner loop of \<open>find_longest_match\<close> over the positions \<open>j\<close> of \<open>a[i]\<close> in \<open>b\<close>, with
  its \<open>continue\<close> and its \<open>break\<close>.  The state is \<open>(newj2len, besti, bestj, bestsize)\<close>.
  Python computes \<open>i-k+1\<close> and \<open>j-k+1\<close> on unbounded integers; \<open>k \<le> i + 1\<close> and
  \<open>k \<le> j + 1\<close> always hold there (lemma \<open>j2lenget_bounds\<close> below), so \<open>Suc i - k\<close> and
  \<open>Suc j - k\<close> on naturals are the same numbers.
\<close>

type_synonym flm_state = "(nat \<times> nat) list \<times> nat \<times> nat \<times> nat"

fun scan_row :: "nat \<Rightarrow> nat \<Rightarrow> nat \<Rightarrow> (nat \<times> nat) list \<Rightarrow> nat list \<Rightarrow> flm_state \<Rightarrow> flm_state" where
  "scan_row blo bhi i j2len [] st = st"
| "scan_row blo bhi i j2len (j # js) (newj2len, besti, bestj, bestsize) =
     (if j < blo then scan_row blo bhi i j2len js (newj2len, besti, bestj, bestsize)
      else if bhi \<le> j then (newj2len, besti, bestj, bestsize)
      else let k = j2lenget j2len j + 1 in
        if bestsize < k
        then scan_row blo bhi i j2len js ((j, k) # newj2len, Suc i - k, Suc j - k, k)
        else scan_row blo bhi i j2len js ((j, k) # newj2len, besti, bestj, bestsize))"

text \<open>The outer loop \<open>for i in range(alo, ahi)\<close>, with \<open>j2len = newj2len\<close> after each row.\<close>

fun scan_rows :: "ustr \<Rightarrow> ustr \<Rightarrow> nat \<Rightarrow> nat \<Rightarrow> nat list \<Rightarrow> flm_state \<Rightarrow> flm_state" where
  "scan_rows a b blo bhi [] st = st"
| "scan_rows a b blo bhi (i # is) (j2len, besti, bestj, bestsize) =
     scan_rows a b blo bhi is
       (scan_row blo bhi i j2len (b2j b (a ! i)) ([], besti, bestj, bestsize))"

text \<open>
  The two \<open>while\<close> loops that extend the best block to the left and to the right.  The
  two loops after them extend over junk only; with an empty junk set their condition
  \<open>isbjunk(...)\<close> is false from the start and they return the block as it is.
\<close>

function extend_left :: "ustr \<Rightarrow> ustr \<Rightarrow> nat \<Rightarrow> nat \<Rightarrow> nat \<times> nat \<times> nat \<Rightarrow> nat \<times> nat \<times> nat" where
  "extend_left a b alo blo (besti, bestj, bestsize) =
     (if alo < besti \<and> blo < bestj \<and> a ! (besti - 1) = b ! (bestj - 1)
      then extend_left a b alo blo (besti - 1, bestj - 1, bestsize + 1)
      else (besti, bestj, bestsize))"
  by pat_completeness auto
termination
  by (relation "measure (\<lambda>(a, b, alo, blo, besti, bestj, bestsize). besti)") auto

function extend_right :: "ustr \<Rightarrow> ustr \<Rightarrow> nat \<Rightarrow> nat \<Rightarrow> nat \<times> nat \<times> nat \<Rightarrow> nat \<times> nat \<times> nat" where
  "extend_right a b ahi bhi (besti, bestj, bestsize) =
     (if besti + bestsize < ahi \<and> bestj + bestsize < bhi
         \<and> a ! (besti + bestsize) = b ! (bestj + bestsize)
      then extend_right a b ahi bhi (besti, bestj, bestsize + 1)
      else (besti, bestj, bestsize))"
  by pat_completeness auto
termination
  by (relation "measure (\<lambda>(a, b, ahi, bhi, besti, bestj, bestsize). ahi - (besti + bestsize))") auto

declare extend_left.simps [simp del] extend_right.simps [simp del]

definition find_longest_match :: "ustr \<Rightarrow> ustr \<Rightarrow> nat \<Rightarrow> nat \<Rightarrow> nat \<Rightarrow> nat \<Rightarrow> nat \<times> nat \<times> nat" where
  "find_longest_match a b alo ahi blo bhi =
     extend_right a b ahi bhi
       (extend_left a b alo blo
          (snd (scan_rows a b blo bhi [alo..<ahi] ([], alo, blo, 0))))"

subsection \<open>The block found lies inside the window\<close>

text \<open>
  Needed for the termination of \<open>get_matching_blocks\<close>: a non-empty block returned for the
  windows \<open>a[alo:ahi]\<close> and \<open>b[blo:bhi]\<close> lies inside both.
\<close>

definition flm_inv :: "nat \<Rightarrow> nat \<Rightarrow> nat \<Rightarrow> nat \<Rightarrow> nat \<times> nat \<times> nat \<Rightarrow> bool" where
  "flm_inv alo blo m bhi st = (case st of (besti, bestj, bestsize) \<Rightarrow>
      (bestsize = 0 \<and> besti = alo \<and> bestj = blo)
      \<or> (alo \<le> besti \<and> besti + bestsize \<le> m \<and> blo \<le> bestj \<and> bestj + bestsize \<le> bhi))"

text \<open>
  An entry \<open>j \<mapsto> v\<close> of the dictionary built for row \<open>i - 1\<close> is the length of a run of
  equal elements that ends at \<open>a[i-1]\<close> and \<open>b[j]\<close> and lies inside both windows.
\<close>

definition j2len_ok :: "nat \<Rightarrow> nat \<Rightarrow> nat \<Rightarrow> (nat \<times> nat) list \<Rightarrow> bool" where
  "j2len_ok alo blo i j2len = (\<forall>(j, v) \<in> set j2len. v \<le> i - alo \<and> v \<le> Suc j - blo)"

lemma j2lenget_bounds:
  assumes "j2len_ok alo blo i j2len" and "alo \<le> i" and "blo \<le> j"
  shows "j2lenget j2len j + 1 \<le> Suc i - alo \<and> j2lenget j2len j + 1 \<le> Suc j - blo"
proof (cases "j = 0")
  case True
  with assms(2,3) show ?thesis by (auto simp: j2lenget_def)
next
  case False
  show ?thesis
  proof (cases "map_of j2len (j - 1)")
    case None
    with False assms(2,3) show ?thesis by (auto simp: j2lenget_def)
  next
    case (Some v)
    then have "(j - 1, v) \<in> set j2len" by (rule map_of_SomeD)
    with assms(1) have "v \<le> i - alo" and "v \<le> Suc (j - 1) - blo"
      by (auto simp: j2len_ok_def)
    with Some False assms(2,3) show ?thesis by (auto simp: j2lenget_def)
  qed
qed

lemma scan_row_inv:
  assumes "j2len_ok alo blo i j2len" and "alo \<le> i"
    and "j2len_ok alo blo (Suc i) new" and "flm_inv alo blo (Suc i) bhi (bi, bj, bs)"
  shows "j2len_ok alo blo (Suc i) (fst (scan_row blo bhi i j2len js (new, bi, bj, bs)))
       \<and> flm_inv alo blo (Suc i) bhi (snd (scan_row blo bhi i j2len js (new, bi, bj, bs)))"
  using assms(3,4)
proof (induction js arbitrary: new bi bj bs)
  case Nil
  then show ?case by simp
next
  case (Cons j js)
  show ?case
  proof (cases "j < blo")
    case True
    with Cons show ?thesis by simp
  next
    case nlt: False
    show ?thesis
    proof (cases "bhi \<le> j")
      case True
      with nlt Cons.prems show ?thesis by simp
    next
      case False
      let ?k = "j2lenget j2len j + 1"
      have k: "?k \<le> Suc i - alo" "?k \<le> Suc j - blo"
        using j2lenget_bounds[OF assms(1) assms(2), of j] nlt by simp_all
      have new': "j2len_ok alo blo (Suc i) ((j, ?k) # new)"
        using Cons.prems(1) k by (auto simp: j2len_ok_def)
      show ?thesis
      proof (cases "bs < ?k")
        case True
        have "flm_inv alo blo (Suc i) bhi (Suc i - ?k, Suc j - ?k, ?k)"
          using k assms(2) nlt False by (auto simp: flm_inv_def)
        from Cons.IH[OF new' this] nlt False True show ?thesis by (simp add: Let_def)
      next
        case nb: False
        from Cons.IH[OF new' Cons.prems(2)] nlt False nb show ?thesis by (simp add: Let_def)
      qed
    qed
  qed
qed

lemma flm_inv_mono: "flm_inv alo blo m bhi st \<Longrightarrow> m \<le> n \<Longrightarrow> flm_inv alo blo n bhi st"
  by (auto simp: flm_inv_def)

lemma scan_rows_inv:
  assumes "j2len_ok alo blo m j2len" and "alo \<le> m" and "flm_inv alo blo m bhi (bi, bj, bs)"
  shows "flm_inv alo blo (max m n) bhi (snd (scan_rows a b blo bhi [m..<n] (j2len, bi, bj, bs)))"
  using assms
proof (induction "n - m" arbitrary: m j2len bi bj bs)
  case 0
  then show ?case by (simp add: max_def)
next
  case (Suc d)
  then have mn: "m < n" by simp
  then have upt: "[m..<n] = m # [Suc m..<n]" by (simp add: upt_conv_Cons)
  obtain new bi' bj' bs'
    where r: "scan_row blo bhi m j2len (b2j b (a ! m)) ([], bi, bj, bs) = (new, bi', bj', bs')"
    by (metis prod_cases4)
  have inv0: "flm_inv alo blo (Suc m) bhi (bi, bj, bs)"
    using Suc.prems(3) by (rule flm_inv_mono) simp
  have e: "j2len_ok alo blo (Suc m) []" by (simp add: j2len_ok_def)
  from scan_row_inv[OF Suc.prems(1) Suc.prems(2) e inv0, of "b2j b (a ! m)"] r
  have n1: "j2len_ok alo blo (Suc m) new" and i1: "flm_inv alo blo (Suc m) bhi (bi', bj', bs')"
    by auto
  have "d = n - Suc m" using Suc.hyps(2) by simp
  from Suc.hyps(1)[OF this n1 _ i1] Suc.prems(2)
  have "flm_inv alo blo (max (Suc m) n) bhi
          (snd (scan_rows a b blo bhi [Suc m..<n] (new, bi', bj', bs')))"
    by simp
  moreover have "max (Suc m) n = max m n" using mn by simp
  ultimately show ?case using upt r by simp
qed

lemma extend_left_inv:
  "flm_inv alo blo m bhi st \<Longrightarrow> flm_inv alo blo m bhi (extend_left a b alo blo st)"
proof (induction a b alo blo st rule: extend_left.induct)
  case (1 a b alo blo besti bestj bestsize)
  show ?case
  proof (cases "alo < besti \<and> blo < bestj \<and> a ! (besti - 1) = b ! (bestj - 1)")
    case True
    have "flm_inv alo blo m bhi (besti - 1, bestj - 1, bestsize + 1)"
      using "1.prems" True by (auto simp: flm_inv_def)
    from "1.IH"[OF True this] True show ?thesis by (subst extend_left.simps) simp
  next
    case False
    with "1.prems" show ?thesis by (subst extend_left.simps) auto
  qed
qed

lemma extend_right_inv:
  "flm_inv alo blo ahi bhi st \<Longrightarrow> flm_inv alo blo ahi bhi (extend_right a b ahi bhi st)"
proof (induction a b ahi bhi st rule: extend_right.induct)
  case (1 a b ahi bhi besti bestj bestsize)
  show ?case
  proof (cases "besti + bestsize < ahi \<and> bestj + bestsize < bhi
         \<and> a ! (besti + bestsize) = b ! (bestj + bestsize)")
    case True
    have "flm_inv alo blo ahi bhi (besti, bestj, bestsize + 1)"
      using "1.prems" True by (auto simp: flm_inv_def)
    from "1.IH"[OF True this] True show ?thesis by (subst extend_right.simps) simp
  next
    case False
    with "1.prems" show ?thesis by (subst extend_right.simps) auto
  qed
qed

lemma find_longest_match_bounds:
  assumes "find_longest_match a b alo ahi blo bhi = (i, j, k)" and "k \<noteq> 0"
  shows "alo \<le> i \<and> i + k \<le> ahi \<and> blo \<le> j \<and> j + k \<le> bhi"
proof -
  let ?s = "snd (scan_rows a b blo bhi [alo..<ahi] ([], alo, blo, 0))"
  have s: "flm_inv alo blo (max alo ahi) bhi ?s"
    by (rule scan_rows_inv) (auto simp: flm_inv_def j2len_ok_def)
  have inv: "flm_inv alo blo ahi bhi (find_longest_match a b alo ahi blo bhi)"
  proof (cases "alo \<le> ahi")
    case True
    then have "flm_inv alo blo ahi bhi ?s" using s by (simp add: max_def)
    then show ?thesis
      unfolding find_longest_match_def by (intro extend_right_inv extend_left_inv)
  next
    case False
    then have "?s = (alo, blo, 0)" by simp
    moreover have "extend_left a b alo blo (alo, blo, 0) = (alo, blo, 0)"
      by (subst extend_left.simps) simp
    moreover have "extend_right a b ahi bhi (alo, blo, 0) = (alo, blo, 0)"
      using False by (subst extend_right.simps) simp
    ultimately show ?thesis by (simp add: find_longest_match_def flm_inv_def)
  qed
  with assms show ?thesis by (simp add: flm_inv_def)
qed

subsection \<open>Matching blocks and ratio\<close>

text \<open>
  \<open>get_matching_blocks\<close> keeps a work list of windows; each window contributes the block
  found in it and the two windows left and right of that block.  The function below
  visits the windows in the order of the source (the window pushed last is popped
  first).  The source then sorts the blocks, merges adjacent ones and appends a block of
  size 0; none of this changes the sum of the sizes, which is all that \<open>ratio\<close> reads.
\<close>

function matching_blocks :: "ustr \<Rightarrow> ustr \<Rightarrow> nat \<Rightarrow> nat \<Rightarrow> nat \<Rightarrow> nat \<Rightarrow> (nat \<times> nat \<times> nat) list" where
  "matching_blocks a b alo ahi blo bhi =
     (case find_longest_match a b alo ahi blo bhi of (i, j, k) \<Rightarrow>
        if k = 0 then []
        else (i, j, k)
          # (if i + k < ahi \<and> j + k < bhi then matching_blocks a b (i + k) ahi (j + k) bhi else [])
          @ (if alo < i \<and> blo < j then matching_blocks a b alo i blo j else []))"
  by pat_completeness auto
termination
proof (relation "measure (\<lambda>(a, b, alo, ahi, blo, bhi). ahi - alo)", goal_cases)
  case 1
  show ?case by simp
next
  case (2 a b alo ahi blo bhi i y j k)
  then have "find_longest_match a b alo ahi blo bhi = (i, j, k)" by simp
  from find_longest_match_bounds[OF this \<open>k \<noteq> 0\<close>] \<open>k \<noteq> 0\<close> 2(4)
  have "ahi - (i + k) < ahi - alo" by linarith
  then show ?case by simp
next
  case (3 a b alo ahi blo bhi i y j k)
  then have "find_longest_match a b alo ahi blo bhi = (i, j, k)" by simp
  from find_longest_match_bounds[OF this \<open>k \<noteq> 0\<close>] \<open>k \<noteq> 0\<close> 3(4)
  have "i - alo < ahi - alo" by linarith
  then show ?case by simp
qed

declare matching_blocks.simps [simp del]

text \<open>
  \<open>ratio()\<close> is \<open>2.0 * matches / length\<close>, or \<open>1.0\<close> when both sequences are empty.  The
  quotient is kept exact here.  The float of the source is this quotient rounded to the
  nearest double, and rounding keeps the order of two such quotients, and their order
  against \<open>0.3\<close>, as long as the keys are shorter than \<open>2^25\<close> characters.
\<close>

definition ratio :: "ustr \<Rightarrow> ustr \<Rightarrow> rat" where
  "ratio a b =
     (let matches = sum_list (map (\<lambda>(i, j, k). k) (matching_blocks a b 0 (length a) 0 (length b)));
          len = length a + length b
      in if len \<noteq> 0 then 2 * of_nat matches / of_nat len else 1)"

subsection \<open>\<open>match_items\<close>\<close>

text \<open>
  The inner loop over \<open>enumerate(tgt_list)\<close> with the pair \<open>(best, best_idx)\<close>, and the outer
  loop over \<open>enumerate(src_list)\<close>.  The result dictionary is an association list in
  insertion order; \<open>mapping[i] = best_idx\<close> is \<open>AList.update\<close>.
\<close>

fun scan_targets :: "rat \<Rightarrow> ustr \<Rightarrow> (nat \<times> ustr) list \<Rightarrow> rat \<times> nat option \<Rightarrow> rat \<times> nat option" where
  "scan_targets threshold src [] (best, best_idx) = (best, best_idx)"
| "scan_targets threshold src ((j, tgt) # rest) (best, best_idx) =
     (let score = ratio src tgt in
      if threshold < score \<and> best < score
      then scan_targets threshold src rest (score, Some j)
      else scan_targets threshold src rest (best, best_idx))"

fun match_rows :: "rat \<Rightarrow> ustr list \<Rightarrow> (nat \<times> ustr) list \<Rightarrow> (nat \<times> nat) list \<Rightarrow> (nat \<times> nat) list" where
  "match_rows threshold tgt_list [] mapping = mapping"
| "match_rows threshold tgt_list ((i, src) # rest) mapping =
     (case snd (scan_targets threshold src (List.enumerate 0 tgt_list) (0, None)) of
        None \<Rightarrow> match_rows threshold tgt_list rest mapping
      | Some best_idx \<Rightarrow> match_rows threshold tgt_list rest (AList.update i best_idx mapping))"

definition match_items :: "ustr list \<Rightarrow> ustr list \<Rightarrow> rat \<Rightarrow> (nat \<times> nat) list" where
  "match_items src_list tgt_list threshold =
     match_rows threshold tgt_list (List.enumerate 0 src_list) []"

definition default_threshold :: rat where
  "default_threshold = 3 / 10"

text \<open>
  \<open>first_best th src tgt j\<close>: target \<open>j\<close> scores above the threshold, no target scores
  higher and no earlier target scores as high.
\<close>

definition first_best :: "rat \<Rightarrow> ustr \<Rightarrow> ustr list \<Rightarrow> nat \<Rightarrow> bool" where
  "first_best th src tgt j =
     (j < length tgt \<and> th < ratio src (tgt ! j)
      \<and> (\<forall>j' < length tgt. ratio src (tgt ! j') \<le> ratio src (tgt ! j))
      \<and> (\<forall>j' < j. ratio src (tgt ! j') < ratio src (tgt ! j)))"

section \<open>Field normalizers\<close>

subsection \<open>Postal code\<close>

text \<open>The sentinel returned for "no postal code" (six Hangul syllables).\<close>

definition no_postal :: ustr where
  "no_postal = [0xC6B0, 0xD3B8, 0xBC88, 0xD638, 0xC5C6, 0xC74C]"

text \<open>
  \<open>int(x)\<close> for the numeric objects: a float is truncated towards zero, an infinite float
  raises \<open>OverflowError\<close> and NaN raises \<open>ValueError\<close>.
\<close>

fun py_int :: "pyval \<Rightarrow> error + int" where
  "py_int (PInt n) = Inr n"
| "py_int (PBool b) = Inr (if b then 1 else 0)"
| "py_int (PFloat (Fin q)) = Inr (if 0 \<le> q then \<lfloor>q\<rfloor> else \<lceil>q\<rceil>)"
| "py_int (PFloat NaN) = Inl ValueError"
| "py_int (PFloat _) = Inl OverflowError"
| "py_int _ = Inl ValueError"

text \<open>\<open>str(n)\<close> of an int: its decimal digits, after a minus sign when negative.\<close>

function digits_of :: "int \<Rightarrow> ustr" where
  "digits_of n = (if n < 10 then [0x30 + n] else digits_of (n div 10) @ [0x30 + n mod 10])"
  by pat_completeness auto
termination
  by (relation "measure nat") auto

declare digits_of.simps [simp del]

definition str_int :: "int \<Rightarrow> ustr" where
  "str_int n = (if n < 0 then 0x2D # digits_of (- n) else digits_of n)"

text \<open>
  \<open>s.zfill(width)\<close> pads with \<open>0\<close> on the left up to \<open>width\<close>, behind a leading sign if
  there is one.
\<close>

definition zfill :: "nat \<Rightarrow> ustr \<Rightarrow> ustr" where
  "zfill width s =
     (if width \<le> length s then s
      else case s of
          [] \<Rightarrow> replicate width 0x30
        | c # rest \<Rightarrow>
            if c = 0x2B \<or> c = 0x2D then c # replicate (width - length s) 0x30 @ rest
            else replicate (width - length s) 0x30 @ s)"

text \<open>\<open>s.isdigit()\<close>: at least one character, and all of them digits.\<close>

definition isdigit :: "ustr \<Rightarrow> bool" where
  "isdigit s = (s \<noteq> [] \<and> list_all isdigit_char s)"

text \<open>The pattern \<open>\d{3}-\d{4}\<close>.\<close>

definition postal_re :: regex where
  "postal_re = [Exactly 3 Digit, One (Chr 0x2D), Exactly 4 Digit]"

text \<open>The last \<open>if isinstance(postal, str)\<close> block, entered with the text of the value.\<close>

definition pad_and_split :: "ustr \<Rightarrow> ustr" where
  "pad_and_split postal =
     (let digits = zfill 7 postal
      in if isdigit digits \<and> length digits = 7 then take 3 digits @ [0x2D] @ drop 3 digits
         else no_postal)"

definition format_postal :: "pyval \<Rightarrow> error + ustr" where
  "format_postal postal =
     (if isna postal then Inr no_postal
      else case postal of
          PStr s \<Rightarrow>
            if re_fullmatch postal_re (strip s) then Inr (strip s)
            else Inr (pad_and_split s)
        | PInt n \<Rightarrow> map_sum id (\<lambda>n. pad_and_split (str_int n)) (py_int postal)
        | PBool b \<Rightarrow> map_sum id (\<lambda>n. pad_and_split (str_int n)) (py_int postal)
        | PFloat f \<Rightarrow> map_sum id (\<lambda>n. pad_and_split (str_int n)) (py_int postal)
        | _ \<Rightarrow> Inr no_postal)"

text \<open>
  The shape \<open>ddd-dddd\<close>: eight characters, a hyphen in the fourth place and a digit, in
  the sense of \<open>str.isdigit\<close>, everywhere else.
\<close>

definition postal_shape :: "ustr \<Rightarrow> bool" where
  "postal_shape r = (length r = 8 \<and> r ! 3 = 0x2D
     \<and> list_all isdigit_char (take 3 r) \<and> list_all isdigit_char (drop 4 r))"

subsection \<open>Order number\<close>

definition startswith :: "ustr \<Rightarrow> ustr \<Rightarrow> bool" where
  "startswith x p = (take (length p) x = p)"

text \<open>The lambda applied to the order-number column after \<open>astype(str)\<close>.\<close>

definition order_no_prefix :: "ustr \<Rightarrow> ustr" where
  "order_no_prefix x = (if \<not> startswith x (ascii ''86'') then ascii ''86'' @ x else x)"

subsection \<open>Address\<close>

text \<open>The pattern \<open>\[.*?\]\<close> and the lambda applied to the address column.\<close>

definition bracket_re :: regex where
  "bracket_re = [One (Chr 0x5B), Lazy_star Dot, One (Chr 0x5D)]"

fun strip_brackets :: "pyval \<Rightarrow> pyval" where
  "strip_brackets (PStr x) = PStr (re_sub bracket_re x)"
| "strip_brackets x = x"

section \<open>Tables\<close>

text \<open>
  The column labels the program names, after \<open>columns.str.lower()\<close>, and \<open>Extra n\<close> for
  every other column of an uploaded sheet:
  \<^item> order sheet: \<open>item_name\<close>, \<open>order_no\<close>, \<open>item_pcs\<close>, \<open>service code\<close>,
    \<open>consignee_\<close>country code, \<open>pkg\<close>, \<open>item_origin\<close>, \<open>currency\<close>,
    \<open>consignee_address (en)_jp\<close>..., \<open>consignee_ postalcode\<close>;
  \<^item> catalog: listing name, product code, barcode;
  \<^item> both: shopping-mall URL, \<open>unit_total price\<close>;
  \<^item> DR sheet: \<open>ref_no\<close>, Hive product code, product name, quantity, barcode.
\<close>

datatype col =
    Item_name | Order_no | Item_pcs
  | Service_code | Consignee_country | Pkg | Item_origin | Currency
  | Address | Postalcode
  | Listing_name | Product_code | Barcode
  | Shop_url | Unit_total_price
  | Ref_no | Hive_code | Product_name | Quantity
  | Extra nat

text \<open>
  A \<open>DataFrame\<close>: its column labels, its row labels in order, and the object in each
  cell.  Only the cells at a row label and a column label of the frame are part of it.
  A missing cell holds NaN.
\<close>

record frame =
  columns :: "col list"
  index :: "nat list"
  cell :: "nat \<Rightarrow> col \<Rightarrow> pyval"

definition nan :: pyval where
  "nan = PFloat NaN"

definition add_label :: "'a \<Rightarrow> 'a list \<Rightarrow> 'a list" where
  "add_label x xs = (if x \<in> set xs then xs else xs @ [x])"

text \<open>\<open>df.at[i, c]\<close> read: \<open>KeyError\<close> unless both labels exist.\<close>

definition at_get :: "frame \<Rightarrow> nat \<Rightarrow> col \<Rightarrow> error + pyval" where
  "at_get df i c =
     (if i \<in> set (index df) \<and> c \<in> set (columns df) then Inr (cell df i c) else Inl KeyError)"

text \<open>
  \<open>df.at[i, c] = v\<close>: a label that does not exist yet is added, and the new row or
  column is missing everywhere else.
\<close>

definition at_set :: "frame \<Rightarrow> nat \<Rightarrow> col \<Rightarrow> pyval \<Rightarrow> frame" where
  "at_set df i c v =
     \<lparr> columns = add_label c (columns df),
       index = add_label i (index df),
       cell = (\<lambda>i' c'. if i' = i \<and> c' = c then v
                       else if i' \<in> set (index df) \<and> c' \<in> set (columns df) then cell df i' c'
                       else nan) \<rparr>"

text \<open>\<open>df[c]\<close> read as the list of its values in row order.\<close>

definition col_get :: "frame \<Rightarrow> col \<Rightarrow> error + pyval list" where
  "col_get df c =
     (if c \<in> set (columns df) then Inr (map (\<lambda>i. cell df i c) (index df)) else Inl KeyError)"

definition and_then :: "error + 'a \<Rightarrow> ('a \<Rightarrow> error + 'b) \<Rightarrow> error + 'b" where
  "and_then r f = (case r of Inl e \<Rightarrow> Inl e | Inr x \<Rightarrow> f x)"

fun first_error :: "(error + 'a) list \<Rightarrow> error option" where
  "first_error [] = None"
| "first_error (Inl e # rs) = Some e"
| "first_error (Inr x # rs) = first_error rs"

text \<open>
  \<open>df[c] = df[c].apply(f)\<close>: \<open>f\<close> runs on the cells in row order and the first exception
  ends the run.
\<close>

definition col_apply :: "frame \<Rightarrow> col \<Rightarrow> (pyval \<Rightarrow> error + pyval) \<Rightarrow> error + frame" where
  "col_apply df c f =
     (if c \<notin> set (columns df) then Inl KeyError
      else case first_error (map (\<lambda>i. f (cell df i c)) (index df)) of
          Some e \<Rightarrow> Inl e
        | None \<Rightarrow> Inr (df\<lparr>cell := (\<lambda>i c'.
            if c' = c \<and> i \<in> set (index df)
            then (case f (cell df i c) of Inr y \<Rightarrow> y | Inl e \<Rightarrow> cell df i c)
            else cell df i c')\<rparr>))"

text \<open>\<open>x.fillna("")\<close> on one value.\<close>

definition fillna_empty :: "pyval \<Rightarrow> pyval" where
  "fillna_empty v = (if isna v then PStr [] else v)"

subsection \<open>Sparse-row override\<close>

text \<open>\<open>r.dropna().shape[0]\<close> for the row \<open>r\<close> at label \<open>i\<close>.\<close>

definition nonmissing :: "frame \<Rightarrow> nat \<Rightarrow> nat" where
  "nonmissing df i = length (filter (\<lambda>c. \<not> isna (cell df i c)) (columns df))"

text \<open>
  One round of the loop:
  \<open>df[c] = df.apply(lambda r: v if r.dropna().shape[0] > 1 else r[c], axis=1)\<close>.
  When the column does not exist, \<open>r[c]\<close> raises \<open>KeyError\<close> for the first row that gets
  there; on a frame without rows \<open>apply\<close> then hands back a frame, not a column, and the
  assignment fails.
\<close>

definition override :: "col \<Rightarrow> pyval \<Rightarrow> frame \<Rightarrow> error + frame" where
  "override c v df =
     (if c \<notin> set (columns df) \<and> index df = [] then Inl ValueError
      else if c \<notin> set (columns df) \<and> list_ex (\<lambda>i. nonmissing df i \<le> 1) (index df)
      then Inl KeyError
      else Inr \<lparr> columns = add_label c (columns df),
                 index = index df,
                 cell = (\<lambda>i c'. if c' = c \<and> i \<in> set (index df)
                                 then (if 1 < nonmissing df i then v else cell df i c)
                                 else cell df i c') \<rparr>)"

definition fixed_values :: "(col \<times> ustr) list" where
  "fixed_values =
     [ (Service_code, ascii ''99''),
       (Consignee_country, ascii ''JP''),
       (Pkg, ascii ''1''),
       (Item_origin, ascii ''KR''),
       (Currency, ascii ''JPY'') ]"

fun overrides :: "(col \<times> ustr) list \<Rightarrow> frame \<Rightarrow> error + frame" where
  "overrides [] df = Inr df"
| "overrides ((c, v) # rest) df = and_then (override c (PStr v) df) (overrides rest)"

subsection \<open>The rules applied to the order table\<close>

text \<open>
  Step 2 of the script.  \<open>to_str\<close> is the text conversion of \<open>astype(str)\<close>, which belongs
  to the table library.
\<close>

definition apply_rules :: "(pyval \<Rightarrow> ustr) \<Rightarrow> frame \<Rightarrow> error + frame" where
  "apply_rules to_str df =
     and_then (col_apply df Order_no (\<lambda>v. Inr (PStr (order_no_prefix (to_str v))))) (\<lambda>d1.
     and_then (overrides fixed_values d1) (\<lambda>d2.
     and_then (col_apply d2 Address (\<lambda>v. Inr (strip_brackets v))) (\<lambda>d3.
     col_apply d3 Postalcode (\<lambda>v. map_sum id PStr (format_postal v)))))"

subsection \<open>DR table assembly\<close>

definition dr_cols :: "col list" where
  "dr_cols = [Ref_no, Hive_code, Product_name, Quantity, Barcode]"

text \<open>\<open>pd.DataFrame(columns=cols)\<close>: no rows yet.\<close>

definition new_frame :: "col list \<Rightarrow> frame" where
  "new_frame cols = \<lparr> columns = cols, index = [], cell = (\<lambda>i c. nan) \<rparr>"

text \<open>
  \<open>df[c] = src[c']\<close>: a frame without rows takes over the row labels of the assigned
  column; otherwise the column is aligned on the row labels.
\<close>

definition col_assign :: "frame \<Rightarrow> col \<Rightarrow> frame \<Rightarrow> col \<Rightarrow> error + frame" where
  "col_assign df c src c' =
     (if c' \<notin> set (columns src) then Inl KeyError
      else Inr \<lparr> columns = add_label c (columns df),
                 index = (if index df = [] then index src else index df),
                 cell = (\<lambda>i x. if x = c then (if i \<in> set (index src) then cell src i c' else nan)
                               else if i \<in> set (index df) then cell df i x
                               else nan) \<rparr>)"

definition assemble_DR :: "frame \<Rightarrow> error + frame" where
  "assemble_DR S_upd =
     and_then (col_assign (new_frame dr_cols) Ref_no S_upd Order_no) (\<lambda>d1.
     and_then (col_assign d1 Product_name S_upd Item_name) (\<lambda>d2.
     col_assign d2 Quantity S_upd Item_pcs))"

section \<open>The run\<close>

text \<open>The tables and mappings the script holds.\<close>

record state =
  df_H :: frame
  df_S_upd :: frame
  df_DR :: frame
  s2h :: "(nat \<times> nat) list"
  dr2h :: "(nat \<times> nat) list"

text \<open>
  The two propagation loops.  Each statement reads a catalog cell and writes it into the
  target table; a read that raises ends the loop with the tables as they are then.
\<close>

fun s2h_loop :: "(nat \<times> nat) list \<Rightarrow> state \<Rightarrow> state \<times> error option" where
  "s2h_loop [] st = (st, None)"
| "s2h_loop ((s_idx, h_idx) # rest) st =
     (case at_get (df_H st) h_idx Shop_url of
        Inl e \<Rightarrow> (st, Some e)
      | Inr url \<Rightarrow>
          let st1 = st\<lparr>df_S_upd := at_set (df_S_upd st) s_idx Shop_url url\<rparr>
          in case at_get (df_H st1) h_idx Unit_total_price of
               Inl e \<Rightarrow> (st1, Some e)
             | Inr price \<Rightarrow>
                 s2h_loop rest
                   (st1\<lparr>df_S_upd := at_set (df_S_upd st1) s_idx Unit_total_price price\<rparr>))"

fun dr2h_loop :: "(nat \<times> nat) list \<Rightarrow> state \<Rightarrow> state \<times> error option" where
  "dr2h_loop [] st = (st, None)"
| "dr2h_loop ((dr_idx, h_idx) # rest) st =
     (case at_get (df_H st) h_idx Product_code of
        Inl e \<Rightarrow> (st, Some e)
      | Inr code \<Rightarrow>
          let st1 = st\<lparr>df_DR := at_set (df_DR st) dr_idx Hive_code code\<rparr>
          in case at_get (df_H st1) h_idx Barcode of
               Inl e \<Rightarrow> (st1, Some e)
             | Inr barcode \<Rightarrow>
                 let st2 = st1\<lparr>df_DR := at_set (df_DR st1) dr_idx Barcode barcode\<rparr>
                 in case at_get (df_H st2) h_idx Listing_name of
                      Inl e \<Rightarrow> (st2, Some e)
                    | Inr name \<Rightarrow>
                        dr2h_loop rest
                          (st2\<lparr>df_DR := at_set (df_DR st2) dr_idx Product_name name\<rparr>))"

definition finished :: "state \<times> error option \<Rightarrow> error + state" where
  "finished r = (case r of (st, None) \<Rightarrow> Inr st | (st, Some e) \<Rightarrow> Inl e)"

definition clean_names :: "pyval list \<Rightarrow> ustr list" where
  "clean_names xs = map (\<lambda>x. clean_text (fillna_empty x)) xs"

text \<open>
  The body of \<open>if s_file:\<close> up to the finished DR table, for a catalog \<open>H\<close> and an order
  table \<open>S\<close> as read from the two sheets.
\<close>

definition pipeline :: "(pyval \<Rightarrow> ustr) \<Rightarrow> frame \<Rightarrow> frame \<Rightarrow> error + state" where
  "pipeline to_str H S =
     and_then (col_get S Item_name) (\<lambda>s_names.
     and_then (col_get H Listing_name) (\<lambda>h_names.
     let s_names_clean = clean_names s_names;
         h_names_clean = clean_names h_names;
         m1 = match_items s_names_clean h_names_clean default_threshold
     in
     and_then (finished (s2h_loop m1
        \<lparr> df_H = H, df_S_upd = S, df_DR = new_frame [], s2h = m1, dr2h = [] \<rparr>)) (\<lambda>st1.
     and_then (apply_rules to_str (df_S_upd st1)) (\<lambda>S2.
     and_then (assemble_DR S2) (\<lambda>DR.
     and_then (col_get DR Product_name) (\<lambda>dr_names.
     let m2 = match_items (clean_names dr_names) h_names_clean default_threshold
     in finished (dr2h_loop m2 (st1\<lparr>df_S_upd := S2, df_DR := DR, dr2h := m2\<rparr>))))))))"

section \<open>Example tables\<close>

text \<open>
  An order table with a row that has two non-missing values and a row that has one.
\<close>

definition sparse_example :: frame where
  "sparse_example =
     \<lparr> columns = [Order_no, Service_code, Consignee_country, Pkg, Item_origin, Currency],
       index = [0, 1],
       cell = (\<lambda>i c. if c = Order_no then PStr (ascii ''861'')
                      else if i = 0 \<and> c = Currency then PStr (ascii ''USD'')
                      else nan) \<rparr>"

text \<open>
  The catalog and the order table of the end-to-end example, with an order number and a
  postal code so that the run gets through the rules.  \<open>text_of_cell\<close> is \<open>str()\<close> on the
  two kinds of cell whose text the example tables need, a str and an int; \<open>dr_cell\<close>
  reads a cell of the DR table a run ends with.
\<close>

definition catalog_name :: ustr where
  "catalog_name = ascii ''Premium Red Lipstick #001'' @ [0x30BB, 0x30C3, 0x30C8]"

definition order_name :: ustr where
  "order_name = [0x3010] @ ascii ''Premium Red Lipstick #001'' @ [0x30BB, 0x30C3, 0x30C8, 0x3011]"

definition example_H :: frame where
  "example_H =
     \<lparr> columns = [Listing_name, Product_code, Barcode],
       index = [0],
       cell = (\<lambda>i c. if c = Listing_name then PStr catalog_name
                      else if c = Product_code then PStr (ascii ''P1'')
                      else if c = Barcode then PStr (ascii ''B1'')
                      else nan) \<rparr>"

definition example_S :: frame where
  "example_S =
     \<lparr> columns = [Order_no, Item_name, Item_pcs, Service_code, Consignee_country, Pkg,
                  Item_origin, Currency, Address, Postalcode],
       index = [0],
       cell = (\<lambda>i c. if c = Order_no then PStr (ascii ''12345'')
                      else if c = Item_name then PStr order_name
                      else if c = Item_pcs then PInt 2
                      else if c = Postalcode then PInt 1234567
                      else nan) \<rparr>"

definition text_of_cell :: "pyval \<Rightarrow> ustr" where
  "text_of_cell v = (case v of PStr s \<Rightarrow> s | PInt n \<Rightarrow> str_int n | _ \<Rightarrow> [])"

definition dr_cell :: "error + state \<Rightarrow> nat \<Rightarrow> col \<Rightarrow> error + pyval" where
  "dr_cell r i c = map_sum id (\<lambda>st. cell (df_DR st) i c) r"

section \<open>Properties of the text normalizer\<close>

subsection \<open>A match is a prefix of the text behind the position\<close>

lemma lazy_star_suffix:
  assumes "\<And>t e. e \<in> set (k t) \<Longrightarrow> suffix e t"
  shows "e \<in> set (lazy_star c k s) \<Longrightarrow> suffix e s"
proof (induction s)
  case Nil
  then show ?case using assms[of e "[]"] by simp
next
  case (Cons x xs)
  then show ?case using assms[of e "x # xs"] by (auto split: if_splits intro: suffix_ConsI)
qed

lemma greedy_star_suffix:
  assumes "\<And>t e. e \<in> set (k t) \<Longrightarrow> suffix e t"
  shows "e \<in> set (greedy_star c k s) \<Longrightarrow> suffix e s"
proof (induction s)
  case Nil
  then show ?case using assms[of e "[]"] by simp
next
  case (Cons x xs)
  then show ?case using assms[of e "x # xs"] by (auto split: if_splits intro: suffix_ConsI)
qed

lemma exactly_suffix:
  assumes "\<And>t e. e \<in> set (k t) \<Longrightarrow> suffix e t"
  shows "e \<in> set (exactly n c k s) \<Longrightarrow> suffix e s"
proof (induction n arbitrary: s)
  case 0
  then show ?case using assms[of e s] by simp
next
  case (Suc n)
  show ?case
  proof (cases s)
    case Nil
    with Suc.prems show ?thesis by simp
  next
    case (Cons x xs)
    with Suc.prems have "cmatch c x" and "e \<in> set (exactly n c k xs)"
      by (auto split: if_splits)
    then have "suffix e xs" using Suc.IH by blast
    then show ?thesis using Cons by (simp add: suffix_ConsI)
  qed
qed

lemma ends_suffix: "e \<in> set (ends r s) \<Longrightarrow> suffix e s"
proof (induction r arbitrary: e s)
  case Nil
  then show ?case by simp
next
  case (Cons a r)
  have k: "\<And>t e. e \<in> set (ends r t) \<Longrightarrow> suffix e t" by (rule Cons.IH)
  show ?case
  proof (cases a)
    case (One c)
    with Cons.prems show ?thesis using exactly_suffix[OF k] by simp
  next
    case (Lazy_star c)
    with Cons.prems show ?thesis using lazy_star_suffix[OF k] by simp
  next
    case (At_least n c)
    have "\<And>t e. e \<in> set (greedy_star c (ends r) t) \<Longrightarrow> suffix e t"
      by (rule greedy_star_suffix[OF k])
    from exactly_suffix[OF this] At_least Cons.prems show ?thesis by simp
  next
    case (Exactly n c)
    with Cons.prems show ?thesis using exactly_suffix[OF k] by simp
  qed
qed

lemma first_match_suffix: "first_match r s = Some e \<Longrightarrow> suffix e s"
  by (metis first_match_def find_Some_iff nth_mem ends_suffix)

lemma re_sub_subset: "set (re_sub r s) \<subseteq> set s"
proof (induction r s rule: re_sub.induct)
  case (1 r)
  then show ?case by simp
next
  case (2 r x xs)
  show ?case
  proof (cases "first_match r (x # xs)")
    case None
    with 2 show ?thesis by auto
  next
    case (Some rest)
    then have "set rest \<subseteq> set (x # xs)" using first_match_suffix set_mono_suffix by blast
    with 2 Some show ?thesis by auto
  qed
qed

lemma strip_subset: "set (strip s) \<subseteq> set s"
proof -
  have "set (strip s) \<subseteq> set (rev (dropWhile isspace s))"
    unfolding strip_def by (auto dest: set_dropWhileD)
  also have "\<dots> \<subseteq> set s" by (auto dest: set_dropWhileD)
  finally show ?thesis .
qed

subsection \<open>Slashes\<close>

lemma lazy_star_first: "\<exists>es. lazy_star c (\<lambda>s. [s]) s = s # es"
  by (cases s) auto

lemma first_match_slash:
  "first_match [One (Chr 0x2F), Lazy_star Dot] (x # xs) = (if x = 0x2F then Some xs else None)"
proof -
  obtain es where "lazy_star Dot (\<lambda>s. [s]) xs = xs # es" using lazy_star_first by blast
  moreover have "ends [] = (\<lambda>s. [s])" by (rule ext) simp
  ultimately show ?thesis by (simp add: first_match_def)
qed

lemma re_sub_slash:
  "re_sub [One (Chr 0x2F), Lazy_star Dot] s = filter (\<lambda>c. c \<noteq> 0x2F) s"
  by (induction s) (simp_all add: first_match_slash)

lemma patterns_slash: "patterns ! 2 = [One (Chr 0x2F), Lazy_star Dot]"
  by (simp add: patterns_def)

lemma fold_re_sub_subset: "set (fold re_sub rs s) \<subseteq> set (s)"
proof (induction rs arbitrary: s)
  case Nil show ?case by simp
next
  case (Cons r rs)
  have "set (fold re_sub rs (re_sub r s)) \<subseteq> set (re_sub r s)" by (rule Cons.IH)
  with re_sub_subset[of r s] show ?case by auto
qed

lemma clean_text_no_slash: "0x2F \<notin> set (clean_text v)"
proof (cases v)
  case (PStr s)
  let ?p3 = "[One (Chr 0x2F), Lazy_star Dot]"
  define pre where "pre = take 2 patterns"
  define post where "post = drop 3 patterns"
  have p: "patterns = pre @ ?p3 # post"
    by (simp add: pre_def post_def patterns_def)
  have "0x2F \<notin> set (re_sub ?p3 (fold re_sub pre s))" by (simp add: re_sub_slash)
  then have "0x2F \<notin> set (fold re_sub patterns s)"
    using fold_re_sub_subset[of post "re_sub ?p3 (fold re_sub pre s)"] by (auto simp: p)
  then have "0x2F \<notin> set (strip (fold re_sub patterns s))" using strip_subset by blast
  then show ?thesis using re_sub_subset PStr by fastforce
qed simp_all

text \<open>
  Claim C10.  The third pattern, \<open>/.*?\<close>, takes a slash and then lazily nothing: applied
  to any string it deletes exactly the slash characters and keeps everything else,
  including the text behind a slash.  No later step adds a character, so the result of
  \<open>clean_text\<close> never contains a slash, whatever the argument.
\<close>

theorem clean_text_removes_slashes:
  "re_sub (patterns ! 2) s = filter (\<lambda>c. c \<noteq> 0x2F) s \<and> 0x2F \<notin> set (clean_text v)"
  by (simp add: patterns_slash re_sub_slash clean_text_no_slash)

section \<open>Properties of the field normalizers\<close>

lemma format_postal_missing: "isna v \<Longrightarrow> format_postal v = Inr no_postal"
  by (simp add: format_postal_def)

lemma format_postal_formatted:
  "re_fullmatch postal_re (strip s) \<Longrightarrow> format_postal (PStr s) = Inr (strip s)"
  by (simp add: format_postal_def)

lemma format_postal_7: "format_postal (PInt 1234567) = Inr (ascii ''123-4567'')"
  by code_simp

lemma format_postal_6: "format_postal (PInt 123456) = Inr (ascii ''012-3456'')"
  by code_simp

lemma format_postal_str: "format_postal (PStr (ascii ''123-4567'')) = Inr (ascii ''123-4567'')"
  by code_simp

lemma format_postal_abcde: "format_postal (PStr (ascii ''abcde'')) = Inr no_postal"
  by code_simp

text \<open>
  Claim C4.  The vectors of the postal-code canonicalizer: the number 1234567 gives
  \<open>123-4567\<close>; the six-digit number 123456 is padded with a zero on the left and gives
  \<open>012-3456\<close>; the string \<open>123-4567\<close> comes back as it is, and so does, trimmed, every
  string that is in this format once its surrounding whitespace is removed; a missing
  value (\<open>None\<close> or NaN) gives the sentinel; \<open>abcde\<close> gives the sentinel.
\<close>

theorem format_postal_vectors:
  "format_postal (PInt 1234567) = Inr (ascii ''123-4567'')
   \<and> format_postal (PInt 123456) = Inr (ascii ''012-3456'')
   \<and> format_postal (PStr (ascii ''123-4567'')) = Inr (ascii ''123-4567'')
   \<and> (\<forall>s. re_fullmatch postal_re (strip s) \<longrightarrow> format_postal (PStr s) = Inr (strip s))
   \<and> format_postal PNone = Inr no_postal
   \<and> format_postal (PFloat NaN) = Inr no_postal
   \<and> (\<forall>v. isna v \<longrightarrow> format_postal v = Inr no_postal)
   \<and> format_postal (PStr (ascii ''abcde'')) = Inr no_postal"
  using format_postal_7 format_postal_6 format_postal_str format_postal_abcde
  by (simp add: format_postal_missing format_postal_formatted)

theorem format_postal_vectors_witness:
  "re_fullmatch postal_re (strip (ascii '' 123-4567 ''))
   \<and> format_postal (PStr (ascii '' 123-4567 '')) = Inr (ascii ''123-4567'')
   \<and> isna (PFloat NaN) \<and> format_postal (PFloat NaN) = Inr no_postal"
proof -
  have m: "re_fullmatch postal_re (strip (ascii '' 123-4567 ''))" by code_simp
  have s: "strip (ascii '' 123-4567 '') = ascii ''123-4567''" by code_simp
  from format_postal_vectors m have "format_postal (PStr (ascii '' 123-4567 '')) = Inr (strip (ascii '' 123-4567 ''))"
    by blast
  moreover from format_postal_vectors have "format_postal (PFloat NaN) = Inr no_postal" by blast
  ultimately show ?thesis using m s by simp
qed

text \<open>
  What \<open>format_postal\<close> returns is the sentinel or has the shape \<open>ddd-dddd\<close>, and it
  raises on the two infinite floats and on nothing else.
\<close>

lemma exactly_Suc:
  "exactly (Suc n) c k s =
     (case s of [] \<Rightarrow> [] | x # xs \<Rightarrow> if cmatch c x then exactly n c k xs else [])"
  by (cases s) simp_all

lemma isdecimal_isdigit: "isdecimal c \<Longrightarrow> isdigit_char c"
  by (simp add: isdigit_char_def)

lemma fullmatch_postal_shape:
  assumes "re_fullmatch postal_re t"
  shows "postal_shape t"
proof -
  from assms have "[] \<in> set (exactly 3 Digit (exactly 1 (Chr 0x2D) (exactly 4 Digit (\<lambda>s. [s]))) t)"
    by (simp add: re_fullmatch_def postal_re_def ends.simps[abs_def])
  then show ?thesis
    by (auto simp: eval_nat_numeral exactly_Suc postal_shape_def isdecimal_isdigit
        split: list.splits if_splits)
qed

lemma pad_and_split_shape: "pad_and_split s = no_postal \<or> postal_shape (pad_and_split s)"
proof (cases "isdigit (zfill 7 s) \<and> length (zfill 7 s) = 7")
  case True
  then have d: "list_all isdigit_char (zfill 7 s)" and l: "length (zfill 7 s) = 7"
    by (simp_all add: isdigit_def)
  have "list_all isdigit_char (take 3 (zfill 7 s))" "list_all isdigit_char (drop 3 (zfill 7 s))"
    using d by (auto simp: list_all_iff dest: in_set_takeD in_set_dropD)
  with True l show ?thesis
    by (simp add: pad_and_split_def Let_def postal_shape_def nth_append)
next
  case False
  then show ?thesis by (auto simp: pad_and_split_def Let_def)
qed

lemma format_postal_returns_shape:
  "format_postal v = Inr r \<Longrightarrow> r = no_postal \<or> postal_shape r"
proof (cases v)
  case (PStr s)
  assume "format_postal v = Inr r"
  with PStr show ?thesis
    using pad_and_split_shape[of s] fullmatch_postal_shape[of "strip s"]
    by (auto simp: format_postal_def split: if_splits)
next
  case (PFloat f)
  assume "format_postal v = Inr r"
  with PFloat show ?thesis
    using pad_and_split_shape
    by (cases f) (auto simp: format_postal_def split: if_splits)
next
  case (PInt n)
  assume "format_postal v = Inr r"
  with PInt show ?thesis using pad_and_split_shape by (auto simp: format_postal_def)
next
  case (PBool b)
  assume "format_postal v = Inr r"
  with PBool show ?thesis using pad_and_split_shape by (auto simp: format_postal_def)
qed (auto simp: format_postal_def)

lemma format_postal_raises_iff:
  "format_postal v = Inl e \<longleftrightarrow> e = OverflowError \<and> (v = PFloat PInf \<or> v = PFloat NInf)"
proof (cases v)
  case (PFloat f)
  then show ?thesis by (cases f) (auto simp: format_postal_def)
qed (auto simp: format_postal_def)

text \<open>
  Claim C9.  The docstring of \<open>format_postal\<close> promises the sentinel for everything that
  is not a six- or seven-digit number or a string already in the format.  An infinite
  float is not missing (\<open>pd.isna\<close> is false), it is a float, and \<open>int(postal)\<close> raises
  \<open>OverflowError\<close> on it: the function raises instead of returning the sentinel.  On
  every other input it returns, and what it returns is the sentinel or of the shape
  \<open>ddd-dddd\<close> (lemmas \<open>format_postal_raises_iff\<close> and \<open>format_postal_returns_shape\<close>).
\<close>

theorem format_postal_raises_on_infinity:
  "format_postal (PFloat PInf) = Inl OverflowError
   \<and> format_postal (PFloat NInf) = Inl OverflowError"
  by (simp add: format_postal_def)

text \<open>
  Claim C8.  The order-number prefixer, on the text of the order number: a text that
  does not start with \<open>86\<close> gets \<open>86\<close> in front, a text that starts with \<open>86\<close> is returned
  unchanged; \<open>12345\<close> becomes \<open>8612345\<close> and \<open>8612345\<close> stays.  For an order number
  that is an int the text is its decimal form.
\<close>

theorem order_no_prefix_spec:
  "(\<not> startswith x (ascii ''86'') \<longrightarrow> order_no_prefix x = ascii ''86'' @ x)
   \<and> (startswith x (ascii ''86'') \<longrightarrow> order_no_prefix x = x)
   \<and> order_no_prefix (ascii ''12345'') = ascii ''8612345''
   \<and> order_no_prefix (ascii ''8612345'') = ascii ''8612345''
   \<and> order_no_prefix (str_int 12345) = ascii ''8612345''"
proof -
  have "order_no_prefix (ascii ''12345'') = ascii ''8612345''" by code_simp
  moreover have "order_no_prefix (ascii ''8612345'') = ascii ''8612345''" by code_simp
  moreover have "order_no_prefix (str_int 12345) = ascii ''8612345''" by code_simp
  ultimately show ?thesis by (simp add: order_no_prefix_def)
qed

theorem order_no_prefix_spec_witness:
  "\<not> startswith (ascii ''12345'') (ascii ''86'')
   \<and> order_no_prefix (ascii ''12345'') = ascii ''86'' @ ascii ''12345''
   \<and> startswith (ascii ''8612345'') (ascii ''86'')
   \<and> order_no_prefix (ascii ''8612345'') = ascii ''8612345''"
proof -
  have a: "\<not> startswith (ascii ''12345'') (ascii ''86'')" by code_simp
  have b: "startswith (ascii ''8612345'') (ascii ''86'')" by code_simp
  from a order_no_prefix_spec[of "ascii ''12345''"]
  have "order_no_prefix (ascii ''12345'') = ascii ''86'' @ ascii ''12345''" by blast
  moreover from b order_no_prefix_spec[of "ascii ''8612345''"]
  have "order_no_prefix (ascii ''8612345'') = ascii ''8612345''" by blast
  ultimately show ?thesis using a b by simp
qed

section \<open>Properties of the similarity matcher\<close>

subsection \<open>The inner loop keeps the first maximum above the bar\<close>

lemma scan_targets_spec:
  "scan_targets th src (List.enumerate n tgts) (best, bidx) = (b', r') \<Longrightarrow>
     (r' = bidx \<and> b' = best \<and> (\<forall>k < length tgts. \<not> max th best < ratio src (tgts ! k)))
   \<or> (\<exists>k < length tgts. r' = Some (n + k) \<and> b' = ratio src (tgts ! k) \<and> max th best < b'
        \<and> (\<forall>k' < length tgts. ratio src (tgts ! k') \<le> b')
        \<and> (\<forall>k' < k. ratio src (tgts ! k') < b'))"
proof (induction tgts arbitrary: n best bidx)
  case Nil
  then show ?case by simp
next
  case (Cons t ts)
  let ?s = "ratio src t"
  show ?case
  proof (cases "th < ?s \<and> best < ?s")
    case True
    with Cons.prems have "scan_targets th src (List.enumerate (Suc n) ts) (?s, Some n) = (b', r')"
      by (simp add: Let_def)
    from Cons.IH[OF this] show ?thesis
    proof
      assume a: "r' = Some n \<and> b' = ?s \<and> (\<forall>k<length ts. \<not> max th ?s < ratio src (ts ! k))"
      have "\<forall>k'<length (t # ts). ratio src ((t # ts) ! k') \<le> b'"
      proof (intro allI impI)
        fix k' assume "k' < length (t # ts)"
        then show "ratio src ((t # ts) ! k') \<le> b'"
          using a True by (cases k') (auto simp: not_less max_def split: if_splits)
      qed
      with a True have "0 < length (t # ts) \<and> r' = Some (n + 0) \<and> b' = ratio src ((t # ts) ! 0)
          \<and> max th best < b' \<and> (\<forall>k'<length (t # ts). ratio src ((t # ts) ! k') \<le> b')
          \<and> (\<forall>k'<0. ratio src ((t # ts) ! k') < b')" by simp
      then show ?thesis by blast
    next
      assume "\<exists>k<length ts. r' = Some (Suc n + k) \<and> b' = ratio src (ts ! k) \<and> max th ?s < b'
          \<and> (\<forall>k'<length ts. ratio src (ts ! k') \<le> b') \<and> (\<forall>k'<k. ratio src (ts ! k') < b')"
      then obtain k where k: "k < length ts" "r' = Some (Suc n + k)" "b' = ratio src (ts ! k)"
          "max th ?s < b'" "\<forall>k'<length ts. ratio src (ts ! k') \<le> b'"
          "\<forall>k'<k. ratio src (ts ! k') < b'" by blast
      have le: "\<forall>k'<length (t # ts). ratio src ((t # ts) ! k') \<le> b'"
      proof (intro allI impI)
        fix k' assume "k' < length (t # ts)"
        then show "ratio src ((t # ts) ! k') \<le> b'" using k(4,5) by (cases k') auto
      qed
      have lt: "\<forall>k'<Suc k. ratio src ((t # ts) ! k') < b'"
      proof (intro allI impI)
        fix k' assume "k' < Suc k"
        then show "ratio src ((t # ts) ! k') < b'" using k(4,6) by (cases k') auto
      qed
      have "Suc k < length (t # ts) \<and> r' = Some (n + Suc k) \<and> b' = ratio src ((t # ts) ! Suc k)
          \<and> max th best < b'"
        using k True by auto
      with le lt show ?thesis by blast
    qed
  next
    case False
    then have s: "\<not> max th best < ?s" by (auto simp: max_def)
    from False Cons.prems have "scan_targets th src (List.enumerate (Suc n) ts) (best, bidx) = (b', r')"
      by (auto simp: Let_def split: if_splits)
    from Cons.IH[OF this] show ?thesis
    proof
      assume a: "r' = bidx \<and> b' = best \<and> (\<forall>k<length ts. \<not> max th best < ratio src (ts ! k))"
      have "\<forall>k<length (t # ts). \<not> max th best < ratio src ((t # ts) ! k)"
      proof (intro allI impI)
        fix k assume "k < length (t # ts)"
        then show "\<not> max th best < ratio src ((t # ts) ! k)" using a s by (cases k) auto
      qed
      with a show ?thesis by blast
    next
      assume "\<exists>k<length ts. r' = Some (Suc n + k) \<and> b' = ratio src (ts ! k) \<and> max th best < b'
          \<and> (\<forall>k'<length ts. ratio src (ts ! k') \<le> b') \<and> (\<forall>k'<k. ratio src (ts ! k') < b')"
      then obtain k where k: "k < length ts" "r' = Some (Suc n + k)" "b' = ratio src (ts ! k)"
          "max th best < b'" "\<forall>k'<length ts. ratio src (ts ! k') \<le> b'"
          "\<forall>k'<k. ratio src (ts ! k') < b'" by blast
      have le: "\<forall>k'<length (t # ts). ratio src ((t # ts) ! k') \<le> b'"
      proof (intro allI impI)
        fix k' assume "k' < length (t # ts)"
        then show "ratio src ((t # ts) ! k') \<le> b'" using k(4,5) s by (cases k') auto
      qed
      have lt: "\<forall>k'<Suc k. ratio src ((t # ts) ! k') < b'"
      proof (intro allI impI)
        fix k' assume "k' < Suc k"
        then show "ratio src ((t # ts) ! k') < b'" using k(4,6) s by (cases k') auto
      qed
      have "Suc k < length (t # ts) \<and> r' = Some (n + Suc k) \<and> b' = ratio src ((t # ts) ! Suc k)
          \<and> max th best < b'"
        using k by auto
      with le lt show ?thesis by blast
    qed
  qed
qed

lemma first_best_unique: "first_best th src tgt j \<Longrightarrow> first_best th src tgt j' \<Longrightarrow> j = j'"
  unfolding first_best_def by (metis linorder_neqE_nat not_less)


lemma best_idx_Some:
  assumes "0 \<le> th"
  shows "snd (scan_targets th src (List.enumerate 0 tgt) (0, None)) = Some j
         \<longleftrightarrow> first_best th src tgt j"
proof -
  obtain b' r' where r: "scan_targets th src (List.enumerate 0 tgt) (0, None) = (b', r')"
    by (cases "scan_targets th src (List.enumerate 0 tgt) (0, None)")
  have m: "max th 0 = th" using assms by simp
  note spec = scan_targets_spec[OF r, unfolded m]
  show ?thesis
  proof
    assume "snd (scan_targets th src (List.enumerate 0 tgt) (0, None)) = Some j"
    then have "r' = Some j" by (simp add: r)
    with spec show "first_best th src tgt j" by (auto simp: first_best_def)
  next
    assume fb: "first_best th src tgt j"
    then have "\<not> (\<forall>k<length tgt. \<not> th < ratio src (tgt ! k))" by (auto simp: first_best_def)
    with spec obtain k where "k < length tgt" "r' = Some k" "first_best th src tgt k"
      by (auto simp: first_best_def)
    with fb first_best_unique show "snd (scan_targets th src (List.enumerate 0 tgt) (0, None)) = Some j"
      by (auto simp: r)
  qed
qed

subsection \<open>The outer loop records one entry per matched source\<close>

lemma match_rows_lookup:
  "map_of (match_rows th tgt (List.enumerate n srcs) m) i =
     (if n \<le> i \<and> i < n + length srcs
      then (case snd (scan_targets th (srcs ! (i - n)) (List.enumerate 0 tgt) (0, None)) of
              None \<Rightarrow> map_of m i | Some j \<Rightarrow> Some j)
      else map_of m i)"
proof (induction srcs arbitrary: n m)
  case Nil
  then show ?case by auto
next
  case (Cons s ss)
  show ?case
  proof (cases "snd (scan_targets th s (List.enumerate 0 tgt) (0, None))")
    case None
    then show ?thesis using Cons.IH[of "Suc n" m]
      by (auto simp: nth_Cons' Suc_diff_le split: option.splits)
  next
    case (Some j)
    then show ?thesis using Cons.IH[of "Suc n" "AList.update n j m"]
      by (auto simp: nth_Cons' Suc_diff_le update_conv' split: option.splits)
  qed
qed


lemma match_items_lookup:
  "map_of (match_items src tgt th) i =
     (if i < length src then snd (scan_targets th (src ! i) (List.enumerate 0 tgt) (0, None)) else None)"
  unfolding match_items_def by (simp add: match_rows_lookup split: option.splits)






subsection \<open>Empty keys\<close>

lemma find_longest_match_empty: "find_longest_match [] b 0 0 0 bhi = (0, 0, 0)"
proof -
  have "extend_left [] b 0 0 (0, 0, 0) = (0, 0, 0)" by (subst extend_left.simps) simp
  moreover have "extend_right [] b 0 bhi (0, 0, 0) = (0, 0, 0)" by (subst extend_right.simps) simp
  ultimately show ?thesis by (simp add: find_longest_match_def)
qed

lemma ratio_empty: "ratio [] b = (if b = [] then 1 else 0)"
proof -
  have "matching_blocks [] b 0 0 0 (length b) = []"
    by (subst matching_blocks.simps) (simp add: find_longest_match_empty)
  then show ?thesis by (simp add: ratio_def)
qed

text \<open>
  Claim C3.  Two empty keys have ratio 1, which is above the default threshold 0.3.  An
  empty source key scores 0 against every non-empty target key and 1 against every empty
  one, so for a source list with an empty key at index \<open>i\<close> and a target list whose first
  empty key is at index \<open>j0\<close>, \<open>match_items\<close> records \<open>i \<mapsto> j0\<close>.
\<close>

theorem empty_keys_are_paired:
  "ratio [] [] = 1 \<and> default_threshold < ratio [] []
   \<and> (i < length src \<and> src ! i = [] \<and> j0 < length tgt \<and> tgt ! j0 = []
        \<and> (\<forall>j < j0. tgt ! j \<noteq> [])
      \<longrightarrow> map_of (match_items src tgt default_threshold) i = Some j0)"
proof -
  have th: "0 \<le> default_threshold" by (simp add: default_threshold_def)
  have "first_best default_threshold [] tgt j0"
    if "j0 < length tgt" "tgt ! j0 = []" "\<forall>j < j0. tgt ! j \<noteq> []"
    using that by (simp add: first_best_def ratio_empty default_threshold_def)
  then show ?thesis
    using best_idx_Some[OF th, of "[]" tgt j0]
    by (auto simp: match_items_lookup ratio_empty default_threshold_def)
qed

theorem empty_keys_are_paired_witness:
  "(1::nat) < length [ascii ''abc'', []] \<and> [ascii ''abc'', []] ! 1 = []
   \<and> (1::nat) < length [ascii ''x'', [], []] \<and> [ascii ''x'', [], []] ! 1 = []
   \<and> [ascii ''x'', [], []] ! 0 \<noteq> []
   \<and> map_of (match_items [ascii ''abc'', []] [ascii ''x'', [], []] default_threshold) 1 = Some 1"
proof -
  have h: "(1::nat) < length [ascii ''abc'', []] \<and> [ascii ''abc'', []] ! 1 = []
   \<and> (1::nat) < length [ascii ''x'', [], []] \<and> [ascii ''x'', [], []] ! 1 = []
   \<and> [ascii ''x'', [], []] ! 0 \<noteq> []"
    by (simp add: ascii_def)
  then have "\<forall>j < (1::nat). [ascii ''x'', [], []] ! j \<noteq> []" by simp
  with h empty_keys_are_paired[of 1 "[ascii ''abc'', []]" 1 "[ascii ''x'', [], []]"]
  have "map_of (match_items [ascii ''abc'', []] [ascii ''x'', [], []] default_threshold) 1 = Some 1"
    by blast
  with h show ?thesis by blast
qed

section \<open>Properties of the tables\<close>

lemma set_add_label [simp]: "set (add_label x xs) = insert x (set xs)"
  by (auto simp: add_label_def)

lemma at_set_index [simp]: "index (at_set df i c v) = add_label i (index df)"
  and at_set_columns [simp]: "columns (at_set df i c v) = add_label c (columns df)"
  and at_set_cell_same [simp]: "cell (at_set df i c v) i c = v"
  by (simp_all add: at_set_def)

lemma at_set_cell_other:
  "i' \<in> set (index df) \<Longrightarrow> c' \<in> set (columns df) \<Longrightarrow> \<not> (i' = i \<and> c' = c)
     \<Longrightarrow> cell (at_set df i c v) i' c' = cell df i' c'"
  by (auto simp: at_set_def)

lemma and_then_Inr: "and_then r f = Inr y \<longleftrightarrow> (\<exists>x. r = Inr x \<and> f x = Inr y)"
  by (cases r) (simp_all add: and_then_def)

lemma finished_Inr: "finished r = Inr st \<longleftrightarrow> r = (st, None)"
  by (cases r) (auto simp: finished_def split: option.splits)

subsection \<open>The propagation loops\<close>

lemma s2h_loop_frame:
  "df_H (fst (s2h_loop m st)) = df_H st \<and> df_DR (fst (s2h_loop m st)) = df_DR st
   \<and> s2h (fst (s2h_loop m st)) = s2h st \<and> dr2h (fst (s2h_loop m st)) = dr2h st"
  by (induction m st rule: s2h_loop.induct) (auto simp: Let_def split: sum.splits)

lemma dr2h_loop_frame:
  "df_H (fst (dr2h_loop m st)) = df_H st \<and> df_S_upd (fst (dr2h_loop m st)) = df_S_upd st
   \<and> s2h (fst (dr2h_loop m st)) = s2h st \<and> dr2h (fst (dr2h_loop m st)) = dr2h st"
  by (induction m st rule: dr2h_loop.induct) (auto simp: Let_def split: sum.splits)

lemma s2h_loop_cell:
  "i \<in> set (index (df_S_upd st)) \<Longrightarrow> c \<in> set (columns (df_S_upd st))
   \<Longrightarrow> c \<noteq> Shop_url \<Longrightarrow> c \<noteq> Unit_total_price
   \<Longrightarrow> i \<in> set (index (df_S_upd (fst (s2h_loop m st))))
       \<and> c \<in> set (columns (df_S_upd (fst (s2h_loop m st))))
       \<and> cell (df_S_upd (fst (s2h_loop m st))) i c = cell (df_S_upd st) i c"
  by (induction m st rule: s2h_loop.induct)
     (auto simp: Let_def at_set_cell_other split: sum.splits)

lemma dr2h_loop_cell:
  "i \<in> set (index (df_DR st)) \<Longrightarrow> c \<in> set (columns (df_DR st)) \<Longrightarrow> i \<notin> fst ` set m
   \<Longrightarrow> i \<in> set (index (df_DR (fst (dr2h_loop m st))))
       \<and> c \<in> set (columns (df_DR (fst (dr2h_loop m st))))
       \<and> cell (df_DR (fst (dr2h_loop m st))) i c = cell (df_DR st) i c"
  by (induction m st rule: dr2h_loop.induct)
     (auto simp: Let_def at_set_cell_other split: sum.splits)

subsection \<open>Column steps\<close>

lemma col_apply_Inr:
  assumes "col_apply df c f = Inr df'"
  shows "columns df' = columns df" and "index df' = index df"
    and "c' \<noteq> c \<Longrightarrow> cell df' i c' = cell df i c'" and "c \<in> set (columns df)"
  using assms by (auto simp: col_apply_def split: if_splits option.splits)

lemma override_Inr:
  assumes "override c v df = Inr df'"
  shows "index df' = index df" and "set (columns df') = insert c (set (columns df))"
    and "c' \<noteq> c \<Longrightarrow> cell df' i c' = cell df i c'"
    and "i \<in> set (index df) \<Longrightarrow> cell df' i c = (if 1 < nonmissing df i then v else cell df i c)"
  using assms by (auto simp: override_def split: if_splits)

lemma filter_length_mono:
  assumes "\<And>x. x \<in> set xs \<Longrightarrow> P x \<Longrightarrow> Q x"
  shows "length (filter P xs) \<le> length (filter Q xs)"
  using assms by (induction xs) auto

lemma override_dense:
  assumes "override c v df = Inr df'" and "i \<in> set (index df)" and "\<not> isna v"
  shows "1 < nonmissing df' i \<longleftrightarrow> 1 < nonmissing df i"
proof (cases "1 < nonmissing df i")
  case True
  note ov = override_Inr[OF assms(1)]
  have cell': "\<And>c'. \<not> isna (cell df i c') \<Longrightarrow> \<not> isna (cell df' i c')"
    using ov(3)[of _ i] ov(4)[OF assms(2)] True assms(3) by (metis)
  show ?thesis
  proof (cases "c \<in> set (columns df)")
    case cin: True
    then have "columns df' = columns df" using assms(1)
      by (auto simp: override_def add_label_def split: if_splits)
    then have "nonmissing df i \<le> nonmissing df' i"
      unfolding nonmissing_def using cell' by (auto intro!: filter_length_mono)
    with True show ?thesis by simp
  next
    case False
    then have "columns df' = columns df @ [c]" using assms(1)
      by (auto simp: override_def add_label_def split: if_splits)
    then have "nonmissing df i \<le> nonmissing df' i"
      unfolding nonmissing_def using cell'
      by (auto intro!: filter_length_mono le_SucI)
    with True show ?thesis by simp
  qed
next
  case False
  then have "list_ex (\<lambda>i. nonmissing df i \<le> 1) (index df)"
    using assms(2) by (force simp: list_ex_iff not_less)
  with assms(1) have cin: "c \<in> set (columns df)"
    by (auto simp: override_def split: if_splits)
  then have cols: "columns df' = columns df" using assms(1)
    by (auto simp: override_def add_label_def split: if_splits)
  have "cell df' i c' = cell df i c'" for c'
    using override_Inr(3)[OF assms(1), of c' i] override_Inr(4)[OF assms(1) assms(2)] False
    by (cases "c' = c") auto
  then have "nonmissing df' i = nonmissing df i" by (simp add: nonmissing_def cols)
  with False show ?thesis by simp
qed

lemma overrides_frame:
  "overrides ps df = Inr df' \<Longrightarrow>
     index df' = index df \<and> set (columns df) \<subseteq> set (columns df')
     \<and> (\<forall>i c'. c' \<notin> fst ` set ps \<longrightarrow> cell df' i c' = cell df i c')"
proof (induction ps arbitrary: df)
  case Nil
  then show ?case by simp
next
  case (Cons p ps)
  obtain c0 v0 where p: "p = (c0, v0)" by (cases p)
  from Cons.prems obtain d1
    where d1: "override c0 (PStr v0) df = Inr d1" "overrides ps d1 = Inr df'"
    by (auto simp: p and_then_Inr)
  note ov = override_Inr[OF d1(1)]
  from Cons.IH[OF d1(2)] ov(1) ov(2) ov(3) show ?case by (auto simp: p)
qed

lemmas overrides_Inr = overrides_frame[THEN conjunct1]
  overrides_frame[THEN conjunct2, THEN conjunct1]
  overrides_frame[THEN conjunct2, THEN conjunct2, rule_format]

lemma overrides_cell:
  assumes "overrides ps df = Inr df'" and "distinct (map fst ps)"
    and "(c, v) \<in> set ps" and "i \<in> set (index df)"
  shows "cell df' i c = (if 1 < nonmissing df i then PStr v else cell df i c)"
  using assms
proof (induction ps arbitrary: df)
  case Nil
  then show ?case by simp
next
  case (Cons p ps)
  obtain c0 v0 where p: "p = (c0, v0)" by (cases p)
  from Cons.prems(1) obtain d1
    where d1: "override c0 (PStr v0) df = Inr d1" "overrides ps d1 = Inr df'"
    by (auto simp: p and_then_Inr)
  note ov = override_Inr[OF d1(1)]
  show ?case
  proof (cases "c = c0")
    case True
    then have notin: "c \<notin> fst ` set ps" using Cons.prems(2) by (auto simp: p)
    then have "(c, v) \<notin> set ps" by force
    with Cons.prems(3) True have "v = v0" by (simp add: p)
    with overrides_Inr(3)[OF d1(2) notin, of i] ov(4)[OF Cons.prems(4)] True
    show ?thesis by simp
  next
    case ne: False
    with Cons.prems(3) have mem: "(c, v) \<in> set ps" by (simp add: p)
    have i1: "i \<in> set (index d1)" using ov(1) Cons.prems(4) by simp
    have "distinct (map fst ps)" using Cons.prems(2) by simp
    from Cons.IH[OF d1(2) this mem i1]
    have "cell df' i c = (if 1 < nonmissing d1 i then PStr v else cell d1 i c)" .
    moreover have "1 < nonmissing d1 i \<longleftrightarrow> 1 < nonmissing df i"
      by (rule override_dense[OF d1(1) Cons.prems(4)]) simp
    moreover have "cell d1 i c = cell df i c" using ov(3)[OF ne] .
    ultimately show ?thesis by simp
  qed
qed

lemma overrides_returns:
  "fst ` set ps \<subseteq> set (columns df) \<Longrightarrow> \<exists>df'. overrides ps df = Inr df'"
proof (induction ps arbitrary: df)
  case Nil
  then show ?case by simp
next
  case (Cons p ps)
  obtain c0 v0 where p: "p = (c0, v0)" by (cases p)
  from Cons.prems have "c0 \<in> set (columns df)" by (simp add: p)
  then obtain d1 where d1: "override c0 (PStr v0) df = Inr d1" by (simp add: override_def)
  from override_Inr(2)[OF d1] Cons.prems have "fst ` set ps \<subseteq> set (columns d1)" by auto
  from Cons.IH[OF this] d1 show ?case by (auto simp: p and_then_Inr)
qed


text \<open>
  Claim C5.  After the loop over the five fixed pairs (service code \<open>99\<close>, consignee
  country code \<open>JP\<close>, package count \<open>1\<close>, item origin \<open>KR\<close>, currency \<open>JPY\<close>), the field
  of a row holds the fixed value if the row had more than one non-missing value when
  the loop began, and its old value otherwise.  Only the number of non-missing values of
  the whole row decides, not whether the field itself was missing.
\<close>

theorem sparse_row_override:
  assumes "overrides fixed_values df = Inr df'"
    and "(c, v) \<in> set fixed_values" and "i \<in> set (index df)"
  shows "cell df' i c = (if 1 < nonmissing df i then PStr v else cell df i c)
    \<and> map fst fixed_values = [Service_code, Consignee_country, Pkg, Item_origin, Currency]
    \<and> map snd fixed_values = [ascii ''99'', ascii ''JP'', ascii ''1'', ascii ''KR'', ascii ''JPY'']"
proof -
  have "distinct (map fst fixed_values)" by (simp add: fixed_values_def)
  from overrides_cell[OF assms(1) this assms(2) assms(3)] show ?thesis
    by (simp add: fixed_values_def)
qed

theorem sparse_row_override_witness:
  "\<exists>df'. overrides fixed_values sparse_example = Inr df'
     \<and> nonmissing sparse_example 0 = 2 \<and> cell df' 0 Currency = PStr (ascii ''JPY'')
     \<and> cell df' 0 Pkg = PStr (ascii ''1'')
     \<and> nonmissing sparse_example 1 = 1 \<and> cell df' 1 Currency = nan"
proof -
  have "fst ` set fixed_values \<subseteq> set (columns sparse_example)"
    by (simp add: fixed_values_def sparse_example_def)
  then obtain df' where run: "overrides fixed_values sparse_example = Inr df'"
    using overrides_returns by blast
  have n0: "nonmissing sparse_example 0 = 2" and n1: "nonmissing sparse_example 1 = 1"
    by (simp_all add: nonmissing_def sparse_example_def nan_def)
  have idx: "0 \<in> set (index sparse_example)" "1 \<in> set (index sparse_example)"
    by (simp_all add: sparse_example_def)
  have mem: "(Currency, ascii ''JPY'') \<in> set fixed_values" "(Pkg, ascii ''1'') \<in> set fixed_values"
    by (simp_all add: fixed_values_def)
  from sparse_row_override[OF run mem(1) idx(1)] n0
  have a: "cell df' 0 Currency = PStr (ascii ''JPY'')" by simp
  from sparse_row_override[OF run mem(2) idx(1)] n0
  have b: "cell df' 0 Pkg = PStr (ascii ''1'')" by simp
  from sparse_row_override[OF run mem(1) idx(2)] n1
  have c: "cell df' 1 Currency = nan" by (simp add: sparse_example_def)
  from run n0 n1 a b c show ?thesis by blast
qed

text \<open>
  Claim C6.  Whatever the tables and the mapping, and whether the loop runs to its end
  or stops at a failing read, the order-table pass and the DR pass leave the catalog
  table as it was.  The order-table pass writes nothing but the order table, the DR pass
  nothing but the DR table.
\<close>

theorem propagation_leaves_catalog:
  "df_H (fst (s2h_loop m st)) = df_H st
   \<and> df_H (fst (dr2h_loop m st)) = df_H st
   \<and> df_DR (fst (s2h_loop m st)) = df_DR st
   \<and> df_S_upd (fst (dr2h_loop m st)) = df_S_upd st"
  by (simp add: s2h_loop_frame dr2h_loop_frame)

section \<open>Properties of the run\<close>

lemma apply_rules_Inr:
  assumes "apply_rules to_str df = Inr df'"
  shows "index df' = index df" and "set (columns df) \<subseteq> set (columns df')"
    and "c \<notin> {Order_no, Address, Postalcode} \<union> fst ` set fixed_values
         \<Longrightarrow> cell df' i c = cell df i c"
proof -
  from assms obtain d1 d2 d3 where
    d1: "col_apply df Order_no (\<lambda>v. Inr (PStr (order_no_prefix (to_str v)))) = Inr d1" and
    d2: "overrides fixed_values d1 = Inr d2" and
    d3: "col_apply d2 Address (\<lambda>v. Inr (strip_brackets v)) = Inr d3" and
    d4: "col_apply d3 Postalcode (\<lambda>v. map_sum id PStr (format_postal v)) = Inr df'"
    unfolding apply_rules_def and_then_Inr by blast
  note a1 = col_apply_Inr[OF d1] and a2 = overrides_Inr[OF d2]
    and a3 = col_apply_Inr[OF d3] and a4 = col_apply_Inr[OF d4]
  show "index df' = index df" using a1(2) a2(1) a3(2) a4(2) by simp
  show "set (columns df) \<subseteq> set (columns df')" using a1(1) a2(2) a3(1) a4(1) by simp
  show "cell df' i c = cell df i c"
    if "c \<notin> {Order_no, Address, Postalcode} \<union> fst ` set fixed_values"
    using that a1(3)[of c i] a2(3)[of c i] a3(3)[of c i] a4(3)[of c i] by simp
qed

lemma assemble_DR_Inr:
  assumes "assemble_DR S2 = Inr DR"
  shows "index DR = index S2" and "columns DR = dr_cols"
    and "i \<in> set (index S2) \<Longrightarrow>
           cell DR i Product_name = cell S2 i Item_name
         \<and> cell DR i Quantity = cell S2 i Item_pcs
         \<and> cell DR i Ref_no = cell S2 i Order_no
         \<and> cell DR i Hive_code = nan \<and> cell DR i Barcode = nan"
  using assms
  by (auto simp: assemble_DR_def and_then_Inr col_assign_def new_frame_def dr_cols_def
      add_label_def split: if_splits)

lemma pipeline_Inr:
  assumes "pipeline to_str H S = Inr st"
  obtains st1 S2 DR where
    "Item_name \<in> set (columns S)" and "Listing_name \<in> set (columns H)"
    "s2h_loop (match_items (clean_names (map (\<lambda>i. cell S i Item_name) (index S)))
                 (clean_names (map (\<lambda>i. cell H i Listing_name) (index H))) default_threshold)
        \<lparr> df_H = H, df_S_upd = S, df_DR = new_frame [],
          s2h = match_items (clean_names (map (\<lambda>i. cell S i Item_name) (index S)))
                 (clean_names (map (\<lambda>i. cell H i Listing_name) (index H))) default_threshold,
          dr2h = [] \<rparr> = (st1, None)"
    "apply_rules to_str (df_S_upd st1) = Inr S2"
    "assemble_DR S2 = Inr DR"
    "dr2h_loop (match_items (clean_names (map (\<lambda>i. cell DR i Product_name) (index DR)))
                 (clean_names (map (\<lambda>i. cell H i Listing_name) (index H))) default_threshold)
        (st1\<lparr>df_S_upd := S2, df_DR := DR,
             dr2h := match_items (clean_names (map (\<lambda>i. cell DR i Product_name) (index DR)))
                 (clean_names (map (\<lambda>i. cell H i Listing_name) (index H))) default_threshold\<rparr>)
       = (st, None)"
  using assms
  unfolding pipeline_def Let_def and_then_Inr finished_Inr col_get_def
  by (auto split: if_splits)


lemma pipeline_leaves_catalog:
  assumes "pipeline to_str H S = Inr st"
  shows "df_H st = H"
proof -
  from assms obtain st1 S2 DR m1 m2 where
    l1: "s2h_loop m1 \<lparr> df_H = H, df_S_upd = S, df_DR = new_frame [], s2h = m1, dr2h = [] \<rparr>
           = (st1, None)" and
    l2: "dr2h_loop m2 (st1\<lparr>df_S_upd := S2, df_DR := DR, dr2h := m2\<rparr>) = (st, None)"
    by (rule pipeline_Inr) blast
  let ?init = "\<lparr> df_H = H, df_S_upd = S, df_DR = new_frame [], s2h = m1, dr2h = [] \<rparr>"
  let ?st2 = "st1\<lparr>df_S_upd := S2, df_DR := DR, dr2h := m2\<rparr>"
  have "df_H st = df_H ?st2" using dr2h_loop_frame[of m2 ?st2] l2 by simp
  also have "\<dots> = df_H ?init" using s2h_loop_frame[of m1 ?init] l1 by simp
  finally show ?thesis by simp
qed

lemma unmatched_order_row:
  assumes run: "pipeline to_str H S = Inr st"
    and i: "i \<in> set (index S)" and un: "i \<notin> fst ` set (dr2h st)"
  shows "i \<in> set (index (df_DR st))
    \<and> cell (df_DR st) i Product_name = cell S i Item_name
    \<and> cell (df_DR st) i Hive_code = nan \<and> cell (df_DR st) i Barcode = nan"
proof -
  from run obtain st1 S2 DR m1 m2 where
    cols: "Item_name \<in> set (columns S)" and
    l1: "s2h_loop m1 \<lparr> df_H = H, df_S_upd = S, df_DR = new_frame [], s2h = m1, dr2h = [] \<rparr>
           = (st1, None)" and
    r: "apply_rules to_str (df_S_upd st1) = Inr S2" and
    d: "assemble_DR S2 = Inr DR" and
    l2: "dr2h_loop m2 (st1\<lparr>df_S_upd := S2, df_DR := DR, dr2h := m2\<rparr>) = (st, None)"
    by (rule pipeline_Inr) blast
  let ?init = "\<lparr> df_H = H, df_S_upd = S, df_DR = new_frame [], s2h = m1, dr2h = [] \<rparr>"
  let ?st2 = "st1\<lparr>df_S_upd := S2, df_DR := DR, dr2h := m2\<rparr>"
  have st1: "st1 = fst (s2h_loop m1 ?init)" and st: "st = fst (dr2h_loop m2 ?st2)"
    using l1 l2 by simp_all
  have a: "i \<in> set (index (df_S_upd st1))"
     "cell (df_S_upd st1) i Item_name = cell S i Item_name"
    using s2h_loop_cell[of i ?init Item_name m1] i cols by (simp_all add: st1)
  note ar = apply_rules_Inr[OF r]
  have b: "i \<in> set (index S2)" "cell S2 i Item_name = cell S i Item_name"
    using a ar(1) ar(3)[of Item_name i] by (simp_all add: fixed_values_def)
  note ad = assemble_DR_Inr[OF d]
  have m2: "dr2h st = m2" using dr2h_loop_frame[of m2 ?st2] by (simp add: st)
  have keep: "i \<in> set (index (df_DR st)) \<and> cell (df_DR st) i c = cell DR i c"
    if "c \<in> set dr_cols" for c
    using dr2h_loop_cell[of i ?st2 c m2] that b(1) ad(1) ad(2) un m2 by (simp add: st)
  have "cell (df_DR st) i Product_name = cell S i Item_name"
    using keep[of Product_name] ad(3)[OF b(1)] b(2) by (simp add: dr_cols_def)
  moreover have "cell (df_DR st) i Hive_code = nan" "cell (df_DR st) i Barcode = nan"
    using keep[of Hive_code] keep[of Barcode] ad(3)[OF b(1)] by (simp_all add: dr_cols_def)
  moreover have "i \<in> set (index (df_DR st))" using keep[of Ref_no] by (simp add: dr_cols_def)
  ultimately show ?thesis by simp
qed

subsection \<open>The rows of the DR table\<close>

text \<open>
  The keys of a mapping are positions of the source list.  When the order table has the
  row labels \<open>0, ..., n-1\<close>, no write of either loop adds a row, and the DR table has
  the rows of the order table.
\<close>

lemma update_keys_set: "fst ` set (AList.update k v al) = insert k (fst ` set al)"
  by (induction al) auto

lemma match_rows_keys:
  "fst ` set (match_rows th tgt (List.enumerate n srcs) m)
     \<subseteq> fst ` set m \<union> {n..<n + length srcs}"
proof (induction srcs arbitrary: n m)
  case Nil
  then show ?case by simp
next
  case (Cons s ss)
  show ?case
  proof (cases "snd (scan_targets th s (List.enumerate 0 tgt) (0, None))")
    case None
    have "fst ` set (match_rows th tgt (List.enumerate (Suc n) ss) m)
            \<subseteq> fst ` set m \<union> {Suc n..<Suc n + length ss}" by (rule Cons.IH)
    also have "\<dots> \<subseteq> fst ` set m \<union> {n..<n + length (s # ss)}" by auto
    finally show ?thesis using None by simp
  next
    case (Some j)
    have "fst ` set (match_rows th tgt (List.enumerate (Suc n) ss) (AList.update n j m))
            \<subseteq> fst ` set (AList.update n j m) \<union> {Suc n..<Suc n + length ss}" by (rule Cons.IH)
    also have "\<dots> \<subseteq> fst ` set m \<union> {n..<n + length (s # ss)}"
      by (auto simp: update_keys_set)
    finally show ?thesis using Some by simp
  qed
qed

lemma match_items_keys: "fst ` set (match_items src tgt th) \<subseteq> set [0..<length src]"
  using match_rows_keys[of th tgt 0 src "[]"] by (simp add: match_items_def)

lemma at_set_index_member: "i \<in> set (index df) \<Longrightarrow> index (at_set df i c v) = index df"
  by (simp add: add_label_def)

lemma s2h_loop_index:
  "fst ` set m \<subseteq> set (index (df_S_upd st))
     \<Longrightarrow> index (df_S_upd (fst (s2h_loop m st))) = index (df_S_upd st)"
proof (induction m arbitrary: st)
  case Nil
  then show ?case by simp
next
  case (Cons p m)
  obtain s_idx h_idx where p: "p = (s_idx, h_idx)" by (cases p)
  from Cons.prems have s: "s_idx \<in> set (index (df_S_upd st))"
    and rest: "fst ` set m \<subseteq> set (index (df_S_upd st))" by (auto simp: p)
  show ?case
  proof (cases "at_get (df_H st) h_idx Shop_url")
    case (Inl e)
    then show ?thesis by (simp add: p)
  next
    case (Inr url)
    let ?st1 = "st\<lparr>df_S_upd := at_set (df_S_upd st) s_idx Shop_url url\<rparr>"
    have i1: "index (df_S_upd ?st1) = index (df_S_upd st)" using s by (simp add: add_label_def)
    show ?thesis
    proof (cases "at_get (df_H st) h_idx Unit_total_price")
      case (Inl e)
      with Inr i1 show ?thesis by (simp add: p)
    next
      case (Inr price)
      let ?st2 = "?st1\<lparr>df_S_upd := at_set (df_S_upd ?st1) s_idx Unit_total_price price\<rparr>"
      have i2: "index (df_S_upd ?st2) = index (df_S_upd st)"
        using s i1 by (simp add: add_label_def)
      have "index (df_S_upd (fst (s2h_loop m ?st2))) = index (df_S_upd ?st2)"
        by (rule Cons.IH) (use rest i2 in simp)
      with \<open>at_get (df_H st) h_idx Shop_url = Inr url\<close> Inr i2 show ?thesis
        by (simp add: p)
    qed
  qed
qed

lemma dr2h_loop_index:
  "fst ` set m \<subseteq> set (index (df_DR st))
     \<Longrightarrow> index (df_DR (fst (dr2h_loop m st))) = index (df_DR st)"
proof (induction m arbitrary: st)
  case Nil
  then show ?case by simp
next
  case (Cons p m)
  obtain dr_idx h_idx where p: "p = (dr_idx, h_idx)" by (cases p)
  from Cons.prems have s: "dr_idx \<in> set (index (df_DR st))"
    and rest: "fst ` set m \<subseteq> set (index (df_DR st))" by (auto simp: p)
  show ?case
  proof (cases "at_get (df_H st) h_idx Product_code")
    case (Inl e)
    then show ?thesis by (simp add: p)
  next
    case code: (Inr code)
    let ?st1 = "st\<lparr>df_DR := at_set (df_DR st) dr_idx Hive_code code\<rparr>"
    have i1: "index (df_DR ?st1) = index (df_DR st)" using s by (simp add: add_label_def)
    show ?thesis
    proof (cases "at_get (df_H st) h_idx Barcode")
      case (Inl e)
      with code i1 show ?thesis by (simp add: p)
    next
      case bar: (Inr barcode)
      let ?st2 = "?st1\<lparr>df_DR := at_set (df_DR ?st1) dr_idx Barcode barcode\<rparr>"
      have i2: "index (df_DR ?st2) = index (df_DR st)"
        using s i1 by (simp add: add_label_def)
      show ?thesis
      proof (cases "at_get (df_H st) h_idx Listing_name")
        case (Inl e)
        with code bar i2 show ?thesis by (simp add: p)
      next
        case (Inr name)
        let ?st3 = "?st2\<lparr>df_DR := at_set (df_DR ?st2) dr_idx Product_name name\<rparr>"
        have i3: "index (df_DR ?st3) = index (df_DR st)"
          using s i2 by (simp add: add_label_def)
        have "index (df_DR (fst (dr2h_loop m ?st3))) = index (df_DR ?st3)"
          by (rule Cons.IH) (use rest i3 in simp)
        with code bar Inr i3 show ?thesis by (simp add: p)
      qed
    qed
  qed
qed

lemma dr_rows_are_order_rows:
  assumes run: "pipeline to_str H S = Inr st" and range: "index S = [0..<n]"
  shows "index (df_DR st) = index S"
proof -
  from run obtain st1 S2 DR m1 m2 where
    m1: "m1 = match_items (clean_names (map (\<lambda>i. cell S i Item_name) (index S)))
                 (clean_names (map (\<lambda>i. cell H i Listing_name) (index H))) default_threshold" and
    l1: "s2h_loop m1 \<lparr> df_H = H, df_S_upd = S, df_DR = new_frame [], s2h = m1, dr2h = [] \<rparr>
           = (st1, None)" and
    r: "apply_rules to_str (df_S_upd st1) = Inr S2" and
    d: "assemble_DR S2 = Inr DR" and
    m2: "m2 = match_items (clean_names (map (\<lambda>i. cell DR i Product_name) (index DR)))
                 (clean_names (map (\<lambda>i. cell H i Listing_name) (index H))) default_threshold" and
    l2: "dr2h_loop m2 (st1\<lparr>df_S_upd := S2, df_DR := DR, dr2h := m2\<rparr>) = (st, None)"
    by (rule pipeline_Inr) blast
  let ?init = "\<lparr> df_H = H, df_S_upd = S, df_DR = new_frame [], s2h = m1, dr2h = [] \<rparr>"
  let ?st2 = "st1\<lparr>df_S_upd := S2, df_DR := DR, dr2h := m2\<rparr>"
  have "fst ` set m1 \<subseteq> set [0..<length (clean_names (map (\<lambda>i. cell S i Item_name) (index S)))]"
    unfolding m1 by (rule match_items_keys)
  then have k1: "fst ` set m1 \<subseteq> set (index (df_S_upd ?init))"
    by (simp add: clean_names_def range)
  have "index (df_S_upd (fst (s2h_loop m1 ?init))) = index (df_S_upd ?init)"
    using k1 by (rule s2h_loop_index)
  then have i1: "index (df_S_upd st1) = index S" using l1 by simp
  have i2: "index DR = index S"
    using apply_rules_Inr(1)[OF r] assemble_DR_Inr(1)[OF d] i1 by simp
  have "fst ` set m2 \<subseteq> set [0..<length (clean_names (map (\<lambda>i. cell DR i Product_name) (index DR)))]"
    unfolding m2 by (rule match_items_keys)
  then have k2: "fst ` set m2 \<subseteq> set (index (df_DR ?st2))"
    by (simp add: clean_names_def i2 range)
  have "index (df_DR (fst (dr2h_loop m2 ?st2))) = index (df_DR ?st2)"
    using k2 by (rule dr2h_loop_index)
  with l2 i2 show ?thesis by simp
qed

subsection \<open>A run in which nothing matches returns\<close>

lemma first_error_None:
  "(\<And>r. r \<in> set rs \<Longrightarrow> \<exists>y. r = Inr y) \<Longrightarrow> first_error rs = None"
  by (induction rs rule: first_error.induct) auto

lemma col_apply_returns:
  assumes "c \<in> set (columns df)"
    and "\<And>i. i \<in> set (index df) \<Longrightarrow> \<exists>y. f (cell df i c) = Inr y"
  shows "\<exists>df'. col_apply df c f = Inr df'"
proof -
  have "first_error (map (\<lambda>i. f (cell df i c)) (index df)) = None"
    by (rule first_error_None) (use assms(2) in auto)
  with assms(1) show ?thesis by (simp add: col_apply_def)
qed

lemma apply_rules_returns:
  assumes cols: "{Order_no, Address, Postalcode} \<union> fst ` set fixed_values \<subseteq> set (columns df)"
    and postal: "\<And>i. i \<in> set (index df) \<Longrightarrow> \<exists>y. format_postal (cell df i Postalcode) = Inr y"
  shows "\<exists>df'. apply_rules to_str df = Inr df'"
proof -
  have "\<exists>d1. col_apply df Order_no (\<lambda>v. Inr (PStr (order_no_prefix (to_str v)))) = Inr d1"
    by (rule col_apply_returns) (use cols in auto)
  then obtain d1 where
    d1: "col_apply df Order_no (\<lambda>v. Inr (PStr (order_no_prefix (to_str v)))) = Inr d1" ..
  note a1 = col_apply_Inr[OF d1]
  obtain d2 where d2: "overrides fixed_values d1 = Inr d2"
    using overrides_returns[of fixed_values d1] cols a1(1) by auto
  note a2 = overrides_Inr[OF d2]
  have "\<exists>d3. col_apply d2 Address (\<lambda>v. Inr (strip_brackets v)) = Inr d3"
    by (rule col_apply_returns) (use cols a1(1) a2(2) in auto)
  then obtain d3 where d3: "col_apply d2 Address (\<lambda>v. Inr (strip_brackets v)) = Inr d3" ..
  note a3 = col_apply_Inr[OF d3]
  have "\<exists>y. map_sum id PStr (format_postal (cell d3 i Postalcode)) = Inr y"
    if "i \<in> set (index d3)" for i
  proof -
    have "cell d3 i Postalcode = cell df i Postalcode"
      using a1(3)[of Postalcode i] a2(3)[of Postalcode i] a3(3)[of Postalcode i]
      by (simp add: fixed_values_def)
    moreover have "i \<in> set (index df)" using that a1(2) a2(1) a3(2) by simp
    ultimately show ?thesis using postal[of i] by auto
  qed
  moreover have "Postalcode \<in> set (columns d3)" using cols a1(1) a2(2) a3(1) by auto
  ultimately have
    "\<exists>d4. col_apply d3 Postalcode (\<lambda>v. map_sum id PStr (format_postal v)) = Inr d4"
    by (intro col_apply_returns) auto
  then obtain d4 where
    "col_apply d3 Postalcode (\<lambda>v. map_sum id PStr (format_postal v)) = Inr d4" ..
  with d1 d2 d3 show ?thesis unfolding apply_rules_def and_then_Inr by blast
qed

lemma assemble_DR_returns:
  "{Order_no, Item_name, Item_pcs} \<subseteq> set (columns S2) \<Longrightarrow> \<exists>DR. assemble_DR S2 = Inr DR"
  by (simp add: assemble_DR_def and_then_def col_assign_def)

lemma unmatched_run_returns:
  assumes cols: "{Item_name, Item_pcs, Order_no, Address, Postalcode} \<union> fst ` set fixed_values
                   \<subseteq> set (columns S)"
    and h: "Listing_name \<in> set (columns H)"
    and postal: "\<And>i. i \<in> set (index S) \<Longrightarrow> \<exists>y. format_postal (cell S i Postalcode) = Inr y"
    and none: "match_items (clean_names (map (\<lambda>i. cell S i Item_name) (index S)))
                 (clean_names (map (\<lambda>i. cell H i Listing_name) (index H))) default_threshold = []"
  shows "\<exists>st. pipeline to_str H S = Inr st \<and> s2h st = [] \<and> dr2h st = []"
proof -
  obtain S2 where r: "apply_rules to_str S = Inr S2"
    using apply_rules_returns[of S to_str] cols postal by auto
  note ar = apply_rules_Inr[OF r]
  obtain DR where d: "assemble_DR S2 = Inr DR"
    using assemble_DR_returns[of S2] cols ar(2) by auto
  note ad = assemble_DR_Inr[OF d]
  have "map (\<lambda>i. cell DR i Product_name) (index DR) = map (\<lambda>i. cell S i Item_name) (index S)"
    using ad(1) ad(3) ar(1) ar(3)[of Item_name] by (auto simp: fixed_values_def)
  with none have none2: "match_items (clean_names (map (\<lambda>i. cell DR i Product_name) (index DR)))
      (clean_names (map (\<lambda>i. cell H i Listing_name) (index H))) default_threshold = []"
    by simp
  have "Product_name \<in> set (columns DR)" using ad(2) by (simp add: dr_cols_def)
  with cols h r d none none2 show ?thesis
    by (simp add: pipeline_def col_get_def and_then_def finished_def)
qed

subsection \<open>The lipstick example\<close>

lemma clean_order_name: "clean_text (PStr order_name) = []"
  by code_simp

lemma clean_catalog_name: "clean_text (PStr catalog_name) = ascii ''PremiumRedLipstick''"
  by code_simp

lemma lipstick_no_match:
  "match_items [clean_text (PStr order_name)] [clean_text (PStr catalog_name)] default_threshold = []"
  by code_simp

lemma lipstick_run:
  assumes H: "index H = [0]" "cell H 0 Listing_name = PStr catalog_name"
    and S: "index S = [0]" "cell S 0 Item_name = PStr order_name" "cell S 0 Item_pcs = PInt 2"
    and run: "pipeline to_str H S = Inr st"
  shows "dr2h st = [] \<and> index (df_DR st) = [0]
    \<and> cell (df_DR st) 0 Product_name = PStr order_name
    \<and> cell (df_DR st) 0 Quantity = PInt 2
    \<and> cell (df_DR st) 0 Hive_code = nan \<and> cell (df_DR st) 0 Barcode = nan"
proof -
  from run obtain st1 S2 DR m1 m2 where
    m1: "m1 = match_items (clean_names (map (\<lambda>i. cell S i Item_name) (index S)))
                 (clean_names (map (\<lambda>i. cell H i Listing_name) (index H))) default_threshold" and
    l1: "s2h_loop m1 \<lparr> df_H = H, df_S_upd = S, df_DR = new_frame [], s2h = m1, dr2h = [] \<rparr>
           = (st1, None)" and
    r: "apply_rules to_str (df_S_upd st1) = Inr S2" and
    d: "assemble_DR S2 = Inr DR" and
    m2: "m2 = match_items (clean_names (map (\<lambda>i. cell DR i Product_name) (index DR)))
                 (clean_names (map (\<lambda>i. cell H i Listing_name) (index H))) default_threshold" and
    l2: "dr2h_loop m2 (st1\<lparr>df_S_upd := S2, df_DR := DR, dr2h := m2\<rparr>) = (st, None)"
    by (rule pipeline_Inr) blast
  have names: "clean_names [PStr order_name] = [clean_text (PStr order_name)]"
      "clean_names [PStr catalog_name] = [clean_text (PStr catalog_name)]"
    by (simp_all add: clean_names_def fillna_empty_def)
  have "m1 = []" using H S names lipstick_no_match by (simp add: m1)
  with l1 have st1: "df_S_upd st1 = S" by auto
  note ar = apply_rules_Inr[OF r, unfolded st1]
  note ad = assemble_DR_Inr[OF d]
  have i: "0 \<in> set (index S2)" using ar(1) S(1) by simp
  have cells: "cell DR 0 Product_name = PStr order_name" "cell DR 0 Quantity = PInt 2"
      "cell DR 0 Hive_code = nan" "cell DR 0 Barcode = nan"
    using ad(3)[OF i] ar(3)[of Item_name 0] ar(3)[of Item_pcs 0] S
    by (simp_all add: fixed_values_def)
  have idx: "index DR = [0]" using ad(1) ar(1) S(1) by simp
  have "m2 = []" using H names lipstick_no_match cells(1) by (simp add: m2 idx)
  with l2 have "st = st1\<lparr>df_S_upd := S2, df_DR := DR, dr2h := []\<rparr>" by simp
  with cells idx show ?thesis by simp
qed

lemma example_run:
  "\<exists>st. pipeline text_of_cell example_H example_S = Inr st \<and> dr2h st = []"
proof -
  have "format_postal (PInt 1234567) = Inr (ascii ''123-4567'')" by code_simp
  then have "\<exists>y. format_postal (cell example_S i Postalcode) = Inr y" for i
    by (simp add: example_S_def)
  moreover have "match_items (clean_names (map (\<lambda>i. cell example_S i Item_name) (index example_S)))
      (clean_names (map (\<lambda>i. cell example_H i Listing_name) (index example_H))) default_threshold = []"
    using lipstick_no_match by (simp add: example_S_def example_H_def clean_names_def fillna_empty_def)
  moreover have "{Item_name, Item_pcs, Order_no, Address, Postalcode} \<union> fst ` set fixed_values
                   \<subseteq> set (columns example_S)"
    by (simp add: example_S_def fixed_values_def)
  moreover have "Listing_name \<in> set (columns example_H)" by (simp add: example_H_def)
  ultimately show ?thesis
    using unmatched_run_returns[of example_S example_H text_of_cell] by blast
qed


text \<open>
  Claim C7.  The sheets are read with the row labels \<open>0, ..., n-1\<close>.  In a run that
  returns, every row label of the DR table that has no entry in the DR-to-catalog
  mapping is a row label of the order table, and the DR row still holds the original,
  uncleaned item name of that order row in the name column, and a missing product code
  and a missing barcode.
\<close>

theorem unmatched_rows_untouched:
  assumes run: "pipeline to_str H S = Inr st" and range: "index S = [0..<n]"
    and i: "i \<in> set (index (df_DR st))" and un: "i \<notin> fst ` set (dr2h st)"
  shows "i \<in> set (index S)
    \<and> cell (df_DR st) i Product_name = cell S i Item_name
    \<and> cell (df_DR st) i Hive_code = nan \<and> cell (df_DR st) i Barcode = nan"
proof -
  have "i \<in> set (index S)" using dr_rows_are_order_rows[OF run range] i by simp
  with unmatched_order_row[OF run this un] show ?thesis by simp
qed

theorem unmatched_rows_untouched_witness:
  "\<exists>st. pipeline text_of_cell example_H example_S = Inr st
     \<and> index example_S = [0..<1]
     \<and> 0 \<in> set (index (df_DR st)) \<and> 0 \<notin> fst ` set (dr2h st)
     \<and> cell (df_DR st) 0 Product_name = PStr order_name
     \<and> cell (df_DR st) 0 Hive_code = nan \<and> cell (df_DR st) 0 Barcode = nan"
proof -
  from example_run obtain st
    where run: "pipeline text_of_cell example_H example_S = Inr st" and m: "dr2h st = []"
    by blast
  have range: "index example_S = [0..<1]" by (simp add: example_S_def)
  have i: "0 \<in> set (index (df_DR st))"
    using dr_rows_are_order_rows[OF run range] by (simp add: example_S_def)
  have un: "0 \<notin> fst ` set (dr2h st)" by (simp add: m)
  from unmatched_rows_untouched[OF run range i un] run range i un show ?thesis
    by (auto simp: example_S_def)
qed

text \<open>
  Claim C1, as stated, fails.  The first pattern removes \<open>#001\<close> and the three kana
  from the order item name, the second then removes everything from the opening to the
  closing lenticular bracket, and the key of the order row is the empty string.  Its
  ratio against the catalog key is 0, the matcher records nothing, and the DR row gets
  neither product code nor barcode and keeps the raw name.
\<close>

theorem lipstick_counterexample:
  "clean_text (PStr order_name) = []
   \<and> match_items [clean_text (PStr order_name)] [clean_text (PStr catalog_name)]
        default_threshold \<noteq> [(0, 0)]
   \<and> cell example_H 0 Product_code = PStr (ascii ''P1'')
   \<and> dr_cell (pipeline text_of_cell example_H example_S) 0 Hive_code = Inr nan
   \<and> dr_cell (pipeline text_of_cell example_H example_S) 0 Hive_code \<noteq> Inr (PStr (ascii ''P1''))
   \<and> dr_cell (pipeline text_of_cell example_H example_S) 0 Barcode = Inr nan
   \<and> dr_cell (pipeline text_of_cell example_H example_S) 0 Product_name = Inr (PStr order_name)"
proof -
  from example_run obtain st
    where run: "pipeline text_of_cell example_H example_S = Inr st" by blast
  have "index example_H = [0]" "cell example_H 0 Listing_name = PStr catalog_name"
    "index example_S = [0]" "cell example_S 0 Item_name = PStr order_name"
    "cell example_S 0 Item_pcs = PInt 2"
    by (simp_all add: example_H_def example_S_def)
  from lipstick_run[OF this run] run clean_order_name lipstick_no_match show ?thesis
    by (simp add: dr_cell_def example_H_def nan_def)
qed

text \<open>
  Claim C1, amended.  For a catalog table with exactly one row (listing name
  \<open>Premium Red Lipstick #001\<close> followed by the three kana, product code \<open>P1\<close>, barcode
  \<open>B1\<close>) and an order table with exactly one row (item name the same text inside
  lenticular brackets, quantity 2), \<open>clean_text\<close> reduces the order item name to the
  empty string, the DR-pass matcher run over the cleaned names produces the empty
  mapping, and in a run that returns the single row of the DR table has quantity 2,
  keeps the raw order item name, and has a missing product code and a missing barcode.
\<close>

theorem lipstick_example:
  assumes "index H = [0]" and "cell H 0 Listing_name = PStr catalog_name"
    and "cell H 0 Product_code = PStr (ascii ''P1'')" and "cell H 0 Barcode = PStr (ascii ''B1'')"
    and "index S = [0]" and "cell S 0 Item_name = PStr order_name"
    and "cell S 0 Item_pcs = PInt 2"
    and "pipeline to_str H S = Inr st"
  shows "clean_text (PStr order_name) = []
    \<and> match_items [clean_text (PStr order_name)] [clean_text (PStr catalog_name)]
          default_threshold = []
    \<and> dr2h st = [] \<and> index (df_DR st) = [0]
    \<and> cell (df_DR st) 0 Product_name = PStr order_name
    \<and> cell (df_DR st) 0 Quantity = PInt 2
    \<and> cell (df_DR st) 0 Hive_code = nan \<and> cell (df_DR st) 0 Barcode = nan"
  using lipstick_run[OF assms(1,2,5-8)] clean_order_name lipstick_no_match by simp

theorem lipstick_example_witness:
  "\<exists>st. pipeline text_of_cell example_H example_S = Inr st
     \<and> index example_H = [0] \<and> cell example_H 0 Listing_name = PStr catalog_name
     \<and> cell example_H 0 Product_code = PStr (ascii ''P1'')
     \<and> cell example_H 0 Barcode = PStr (ascii ''B1'')
     \<and> index example_S = [0] \<and> cell example_S 0 Item_name = PStr order_name
     \<and> cell example_S 0 Item_pcs = PInt 2
     \<and> dr2h st = [] \<and> index (df_DR st) = [0]
     \<and> cell (df_DR st) 0 Product_name = PStr order_name
     \<and> cell (df_DR st) 0 Quantity = PInt 2
     \<and> cell (df_DR st) 0 Hive_code = nan \<and> cell (df_DR st) 0 Barcode = nan"
proof -
  from example_run obtain st
    where run: "pipeline text_of_cell example_H example_S = Inr st" by blast
  have h: "index example_H = [0]" "cell example_H 0 Listing_name = PStr catalog_name"
    "cell example_H 0 Product_code = PStr (ascii ''P1'')"
    "cell example_H 0 Barcode = PStr (ascii ''B1'')"
    "index example_S = [0]" "cell example_S 0 Item_name = PStr order_name"
    "cell example_S 0 Item_pcs = PInt 2"
    by (simp_all add: example_H_def example_S_def)
  from lipstick_example[OF h run] h run show ?thesis by blast
qed

end
